theory Spec2Isabelle
  imports Main "HOL-Library.Word"
begin

text \<open>
  A model of \<^verbatim>\<open>bridge.js\<close>, the bridge between the TCP interface of vMix and an
  Ember+ tree. The program is a set of handlers that the runtime calls one at a time;
  each handler is a function from the state of the bridge to its next state, and what a
  handler does to the outside (updates of the tree, writes to a socket, timers set) is
  recorded in that state.
\<close>

section \<open>JavaScript strings and buffers\<close>

text \<open>
  A JavaScript string is a sequence of UTF-16 code units; a \<^verbatim>\<open>Buffer\<close> delivered by
  the socket is a sequence of bytes. String literals of \<^verbatim>\<open>bridge.js\<close> are written
  \<open>js ''...''\<close>.
\<close>

type_synonym byte = "8 word"
type_synonym codeunit = "16 word"
type_synonym jsstring = "codeunit list"

definition js :: "string \<Rightarrow> jsstring" where
  "js s = map of_char s"

definition CRLF :: jsstring where
  "CRLF = [0x0D, 0x0A]"

text \<open>
  \<^verbatim>\<open>data.toString()\<close> decodes the bytes of ONE chunk as UTF-8. The decoder is the
  one of the Encoding standard, which Node follows: a byte that cannot continue or start a
  sequence yields U+FFFD, and so does a sequence cut off by the end of the chunk.
  \<open>cp\<close> is the code point being assembled, \<open>need\<close> the number of continuation bytes
  still expected, \<open>lo\<close> and \<open>hi\<close> the range allowed for the next one.
\<close>

fun utf8_decode :: "nat \<Rightarrow> nat \<Rightarrow> nat \<Rightarrow> nat \<Rightarrow> nat list \<Rightarrow> nat list" where
  "utf8_decode cp need lo hi [] = (if need = 0 then [] else [0xFFFD])"
| "utf8_decode cp need lo hi (b # bs) =
     (if need = 0 then
        (if b \<le> 0x7F then b # utf8_decode 0 0 0x80 0xBF bs
         else if 0xC2 \<le> b \<and> b \<le> 0xDF then utf8_decode (b mod 32) 1 0x80 0xBF bs
         else if 0xE0 \<le> b \<and> b \<le> 0xEF then
           utf8_decode (b mod 16) 2 (if b = 0xE0 then 0xA0 else 0x80)
             (if b = 0xED then 0x9F else 0xBF) bs
         else if 0xF0 \<le> b \<and> b \<le> 0xF4 then
           utf8_decode (b mod 8) 3 (if b = 0xF0 then 0x90 else 0x80)
             (if b = 0xF4 then 0x8F else 0xBF) bs
         else 0xFFFD # utf8_decode 0 0 0x80 0xBF bs)
      else if b < lo \<or> hi < b then 0xFFFD # utf8_decode 0 0 0x80 0xBF (b # bs)
      else if need = 1 then (cp * 64 + b mod 64) # utf8_decode 0 0 0x80 0xBF bs
      else utf8_decode (cp * 64 + b mod 64) (need - 1) 0x80 0xBF bs)"

definition utf16_units :: "nat \<Rightarrow> jsstring" where
  "utf16_units cp =
     (if cp < 0x10000 then [of_nat cp]
      else [of_nat (0xD800 + (cp - 0x10000) div 0x400),
            of_nat (0xDC00 + (cp - 0x10000) mod 0x400)])"

definition toString :: "byte list \<Rightarrow> jsstring" where
  "toString data = concat (map utf16_units (utf8_decode 0 0 0x80 0xBF (map unat data)))"

text \<open>\<^verbatim>\<open>s.startsWith(p)\<close>, \<^verbatim>\<open>s.indexOf(p)\<close> (\<open>None\<close> for -1),
  \<^verbatim>\<open>s.trim()\<close> and \<^verbatim>\<open>s.split(' ')\<close>.\<close>

definition startsWith :: "jsstring \<Rightarrow> jsstring \<Rightarrow> bool" where
  "startsWith s p = (take (length p) s = p)"

fun indexOf :: "jsstring \<Rightarrow> jsstring \<Rightarrow> nat option" where
  "indexOf [] p = (if p = [] then Some 0 else None)"
| "indexOf (c # cs) p =
     (if startsWith (c # cs) p then Some 0 else map_option Suc (indexOf cs p))"

definition isWhiteSpace :: "codeunit \<Rightarrow> bool" where
  "isWhiteSpace c =
     (c = 0x09 \<or> c = 0x0A \<or> c = 0x0B \<or> c = 0x0C \<or> c = 0x0D \<or> c = 0x20 \<or> c = 0xA0
      \<or> c = 0x1680 \<or> (0x2000 \<le> c \<and> c \<le> 0x200A) \<or> c = 0x2028 \<or> c = 0x2029
      \<or> c = 0x202F \<or> c = 0x205F \<or> c = 0x3000 \<or> c = 0xFEFF)"

definition trim :: "jsstring \<Rightarrow> jsstring" where
  "trim s = rev (dropWhile isWhiteSpace (rev (dropWhile isWhiteSpace s)))"

fun split_js :: "jsstring \<Rightarrow> codeunit \<Rightarrow> jsstring list" where
  "split_js [] sep = [[]]"
| "split_js (c # cs) sep =
     (if c = sep then [] # split_js cs sep
      else (case split_js cs sep of
              [] \<Rightarrow> [[c]]
            | w # ws \<Rightarrow> (c # w) # ws))"

section \<open>Values and plain-object lookup\<close>

datatype category = Recording | MultiCorder | Streaming

text \<open>The parameters of the tree that \<^verbatim>\<open>s.init(tree)\<close> publishes, each of type
  Boolean: the tally parameters of inputs 1 to 32, the connected flag and the three
  ACTS parameters. Set-value requests are made on parameters.\<close>

datatype node =
    ProgramTally nat
  | PreviewTally nat
  | VmixConnected
  | ActsStatus category

datatype "value" = BoolV bool | NumV int | StrV jsstring

text \<open>What a property read \<^verbatim>\<open>obj[key]\<close> can give in this program: \<open>Undefined\<close>,
  a string, a tree node, or a member inherited from \<^verbatim>\<open>Object.prototype\<close>.\<close>

datatype jsval = Undefined | Str jsstring | Node node | Inherited jsstring

text \<open>The property names of \<^verbatim>\<open>Object.prototype\<close>. An object literal
  \<^verbatim>\<open>{...}\<close> inherits them, so \<^verbatim>\<open>obj[key]\<close> is not \<^verbatim>\<open>undefined\<close> for these keys
  even when the literal does not list them.\<close>

definition objectPrototypeKeys :: "jsstring list" where
  "objectPrototypeKeys =
     [js ''constructor'', js ''__defineGetter__'', js ''__defineSetter__'',
      js ''hasOwnProperty'', js ''__lookupGetter__'', js ''__lookupSetter__'',
      js ''isPrototypeOf'', js ''propertyIsEnumerable'', js ''toString'',
      js ''valueOf'', js ''__proto__'', js ''toLocaleString'']"

definition lookup :: "(jsstring \<times> jsval) list \<Rightarrow> jsstring \<Rightarrow> jsval" where
  "lookup obj key =
     (case map_of obj key of
        Some v \<Rightarrow> v
      | None \<Rightarrow> if key \<in> set objectPrototypeKeys then Inherited key else Undefined)"

text \<open>\<^verbatim>\<open>if (v)\<close>: truthiness.\<close>

fun truthy :: "jsval \<Rightarrow> bool" where
  "truthy Undefined = False"
| "truthy (Str s) = (s \<noteq> [])"
| "truthy (Node n) = True"
| "truthy (Inherited k) = True"

text \<open>\<^verbatim>\<open>v + "..."\<close>: the string a value is converted to. The inherited members are
  native functions, but \<^verbatim>\<open>__proto__\<close>, which is the prototype object itself.\<close>

fun toStr :: "jsval \<Rightarrow> jsstring" where
  "toStr Undefined = js ''undefined''"
| "toStr (Str s) = s"
| "toStr (Node n) = js ''[object Object]''"
| "toStr (Inherited k) =
     (if k = js ''__proto__'' then js ''[object Object]''
      else js ''function '' @ (if k = js ''constructor'' then js ''Object'' else k)
             @ js ''() { [native code] }'')"

definition functionCommandMapping :: "(jsstring \<times> jsval) list" where
  "functionCommandMapping =
     [(js ''Auto Mix 1'', Str (js ''FUNCTION CUT'')),
      (js ''Stinger 1'', Str (js ''FUNCTION STINGER1'')),
      (js ''Stinger 2'', Str (js ''FUNCTION STINGER2'')),
      (js ''Stinger 3'', Str (js ''FUNCTION STINGER3'')),
      (js ''Stinger 4'', Str (js ''FUNCTION STINGER4'')),
      (js ''Transition 1'', Str (js ''FUNCTION TRANSITION1'')),
      (js ''Transition 2'', Str (js ''FUNCTION TRANSITION2'')),
      (js ''Transition 3'', Str (js ''FUNCTION TRANSITION3'')),
      (js ''Transition 4'', Str (js ''FUNCTION TRANSITION4''))]"

text \<open>The functions of the tree, \<^verbatim>\<open>functionsTree\<close>: number, identifier and
  description of each. An invocation reaches \<^verbatim>\<open>s.onInvocation\<close> with one of
  these for its \<^verbatim>\<open>emberFunction\<close>.\<close>

definition functionsTree :: "(nat \<times> jsstring \<times> jsstring) list" where
  "functionsTree =
     [(1, js ''Auto Mix 1'', js ''Cut A to B''),
      (2, js ''Stinger 1'', js ''Stinger 1''),
      (3, js ''Stinger 2'', js ''Stinger 2''),
      (4, js ''Stinger 3'', js ''Stinger 3''),
      (5, js ''Stinger 4'', js ''Stinger 4''),
      (6, js ''Transition 1'', js ''Transition 1''),
      (7, js ''Transition 2'', js ''Transition 2''),
      (8, js ''Transition 3'', js ''Transition 3''),
      (9, js ''Transition 4'', js ''Transition 4'')]"

text \<open>\<^verbatim>\<open>programTallyNodes[k]\<close> and \<^verbatim>\<open>previewTallyNodes[k]\<close> for a number \<open>k\<close>:
  the start-up loop fills the keys 1 to 32.\<close>

definition programTallyNodes :: "nat \<Rightarrow> jsval" where
  "programTallyNodes k = (if 1 \<le> k \<and> k \<le> 32 then Node (ProgramTally k) else Undefined)"

definition previewTallyNodes :: "nat \<Rightarrow> jsval" where
  "previewTallyNodes k = (if 1 \<le> k \<and> k \<le> 32 then Node (PreviewTally k) else Undefined)"

definition actsStatusNodes :: "(jsstring \<times> jsval) list" where
  "actsStatusNodes =
     [(js ''Recording'', Node (ActsStatus Recording)),
      (js ''MultiCorder'', Node (ActsStatus MultiCorder)),
      (js ''Streaming'', Node (ActsStatus Streaming))]"

section \<open>The state of the bridge\<close>

text \<open>The variables a call of \<^verbatim>\<open>connectToVMix\<close> closes over.\<close>

record sock =
  delayIndex :: nat
  dataBuffer :: jsstring

text \<open>Where the runtime has a socket in its life: connecting, open, ended by the peer
  (no longer writable, not yet closed), failed with \<^verbatim>\<open>'error'\<close> emitted and
  \<^verbatim>\<open>'close'\<close> still to come, closed.\<close>

datatype phase = Connecting | Open | Ended | Errored | Closed

text \<open>
  \<open>vmixConnection\<close> and \<open>reconnectScheduled\<close> are the two globals. \<open>tree\<close> holds the
  parameter values of the control tree and \<open>updates\<close> the calls of \<^verbatim>\<open>s.update\<close>;
  \<open>socks\<close> the closures of the \<open>nsocks\<close> sockets created so far, \<open>phase\<close> what the
  runtime knows of each; \<open>written\<close> the calls of \<^verbatim>\<open>write\<close>, \<open>timers\<close> the pending
  \<^verbatim>\<open>setTimeout\<close> callbacks (delay, index handed to the next attempt), \<open>timeouts\<close>
  every delay ever handed to \<^verbatim>\<open>setTimeout\<close>, and \<open>received\<close> the lines logged as
  received.
\<close>

record bridge =
  vmixConnection :: "nat option"
  reconnectScheduled :: bool
  tree :: "node \<rightharpoonup> value"
  updates :: "(jsval \<times> value) list"
  socks :: "nat \<Rightarrow> sock"
  nsocks :: nat
  phase :: "nat \<Rightarrow> phase"
  written :: "(nat \<times> jsstring) list"
  timers :: "(nat \<times> nat) list"
  timeouts :: "nat list"
  received :: "jsstring list"

text \<open>\<^verbatim>\<open>socket.writable\<close>, as the runtime keeps it.\<close>

definition writable :: "bridge \<Rightarrow> nat \<Rightarrow> bool" where
  "writable st c = (phase st c = Connecting \<or> phase st c = Open)"

text \<open>
  \<^verbatim>\<open>s.update(target, {value: v})\<close> is the control-tree library's. Called with a
  parameter of the tree and a Boolean it stores the value at the parameter and
  returns; \<open>update\<close> is that effect, with the call recorded. The handlers of the
  device side call it so, with one exception: \<open>actsLine\<close> below can hand it an
  inherited member for a target. The library throws on that call (see \<open>s_update\<close>);
  \<open>update\<close> records there that the call was made, and leaves the tree as it is.
\<close>

definition update :: "jsval \<Rightarrow> value \<Rightarrow> bridge \<Rightarrow> bridge" where
  "update target v st =
     st\<lparr>tree := (case target of Node n \<Rightarrow> (tree st)(n \<mapsto> v) | _ \<Rightarrow> tree st),
        updates := updates st @ [(target, v)]\<rparr>"

text \<open>
  Called with anything else the library throws a \<^verbatim>\<open>TypeError\<close>: with a value that
  is no Boolean, since every parameter of this tree is one, and with a target that is
  no parameter of the tree. \<open>s_update\<close> is the call with its two outcomes; what the
  library has done to the tree when it throws is not part of this program.
\<close>

datatype exn = TypeError

definition s_update :: "jsval \<Rightarrow> value \<Rightarrow> bridge \<Rightarrow> exn + bridge" where
  "s_update target v st =
     (case target of
        Node n \<Rightarrow> (case v of BoolV b \<Rightarrow> Inr (update (Node n) (BoolV b) st) | _ \<Rightarrow> Inl TypeError)
      | _ \<Rightarrow> Inl TypeError)"

section \<open>The handlers registered with the control-tree server\<close>

record invocationResult =
  id_res :: int
  success :: bool
  error :: "jsstring option"

text \<open>\<^verbatim>\<open>s.onInvocation\<close>, given \<^verbatim>\<open>emberFunction.contents.identifier\<close> and
  \<^verbatim>\<open>invocation.contents.invocation.id\<close>.\<close>

definition onInvocation :: "jsstring \<Rightarrow> int \<Rightarrow> bridge \<Rightarrow> invocationResult \<times> bridge" where
  "onInvocation identifier iid st =
     (let command = lookup functionCommandMapping identifier in
      if truthy command then
        (case vmixConnection st of
           Some c \<Rightarrow>
             if writable st c then
               (\<lparr>id_res = iid, success = True, error = None\<rparr>,
                st\<lparr>written := written st @ [(c, toStr command @ CRLF)]\<rparr>)
             else
               (\<lparr>id_res = iid, success = False,
                 error = Some (js ''vMix connection not available.'')\<rparr>, st)
         | None \<Rightarrow>
             (\<lparr>id_res = iid, success = False,
               error = Some (js ''vMix connection not available.'')\<rparr>, st))
      else (\<lparr>id_res = iid, success = True, error = None\<rparr>, st))"

text \<open>\<^verbatim>\<open>s.onSetValue\<close> is an \<^verbatim>\<open>async\<close> function: it calls
  \<^verbatim>\<open>s.update\<close> and then returns \<^verbatim>\<open>true\<close>. When the call throws, the
  \<^verbatim>\<open>return\<close> is not reached and the promise is rejected (\<open>Inl\<close>); otherwise it
  resolves to \<^verbatim>\<open>true\<close>. (The third handler, for matrix operations, touches
  nothing of this state and is left out.)\<close>

definition onSetValue :: "node \<Rightarrow> value \<Rightarrow> bridge \<Rightarrow> exn + bool \<times> bridge" where
  "onSetValue n v st =
     (case s_update (Node n) v st of
        Inl e \<Rightarrow> Inl e
      | Inr st' \<Rightarrow> Inr (True, st'))"

section \<open>Lines received from the device\<close>

text \<open>One pass of the loop over the tally string, at index \<open>i\<close>.\<close>

definition tallyStep :: "jsstring \<Rightarrow> nat \<Rightarrow> bridge \<Rightarrow> bridge" where
  "tallyStep tallyString i st =
     (let digit = tallyString ! i;
          programValue = (digit = of_char CHR ''1'');
          previewValue = (digit = of_char CHR ''2'');
          st1 = (if truthy (programTallyNodes (i + 1))
                 then update (programTallyNodes (i + 1)) (BoolV programValue) st else st)
      in if truthy (previewTallyNodes (i + 1))
         then update (previewTallyNodes (i + 1)) (BoolV previewValue) st1 else st1)"

function tallyLoop :: "jsstring \<Rightarrow> nat \<Rightarrow> bridge \<Rightarrow> bridge" where
  "tallyLoop tallyString i st =
     (if i < length tallyString \<and> i < 32
      then tallyLoop tallyString (i + 1) (tallyStep tallyString i st)
      else st)"
  by pat_completeness auto
termination
  by (relation "measure (\<lambda>(t, i, st). 32 - i)") auto

definition actsLine :: "jsstring \<Rightarrow> bridge \<Rightarrow> bridge" where
  "actsLine line st =
     (let parts = split_js line (of_char CHR '' '') in
      if length parts \<ge> 4 then
        (let category = parts ! 2;
             valueStr = parts ! 3;
             v = (valueStr = js ''1'')
         in if lookup actsStatusNodes category \<noteq> Undefined
            then update (lookup actsStatusNodes category) (BoolV v) st
            else st)
      else st)"

text \<open>The body of the loop of the \<^verbatim>\<open>'data'\<close> handler for one trimmed line.\<close>

definition handleLine :: "jsstring \<Rightarrow> bridge \<Rightarrow> bridge" where
  "handleLine line st =
     (let st = st\<lparr>received := received st @ [line]\<rparr> in
      if startsWith line (js ''TALLY OK'') then tallyLoop (drop 9 line) 0 st
      else if startsWith line (js ''ACTS OK'') then actsLine line st
      else st)"

lemma indexOf_bound: "indexOf s p = Some i \<Longrightarrow> i + length p \<le> length s"
proof (induction s arbitrary: i)
  case Nil
  then show ?case by (simp split: if_splits)
next
  case (Cons c cs)
  show ?case
  proof (cases "startsWith (c # cs) p")
    case True
    then have "take (length p) (c # cs) = p"
      by (simp only: startsWith_def)
    then have "length (take (length p) (c # cs)) = length p"
      by (rule arg_cong)
    then have "min (length p) (length (c # cs)) = length p"
      by (simp only: length_take)
    then have "length p \<le> length (c # cs)"
      by linarith
    with True Cons.prems show ?thesis by simp
  next
    case False
    with Cons.prems obtain j where "indexOf cs p = Some j" "i = Suc j" by auto
    with Cons.IH show ?thesis by fastforce
  qed
qed

text \<open>The \<^verbatim>\<open>while\<close> loop: as long as the buffer holds a CRLF, cut the first line
  off and handle it. The result is the state and what is left in the buffer.\<close>

function processBuffer :: "bridge \<Rightarrow> jsstring \<Rightarrow> bridge \<times> jsstring" where
  "processBuffer st buf =
     (case indexOf buf CRLF of
        None \<Rightarrow> (st, buf)
      | Some lineEndIndex \<Rightarrow>
          processBuffer (handleLine (trim (take lineEndIndex buf)) st)
            (drop (lineEndIndex + 2) buf))"
  by pat_completeness auto
termination
proof (relation "measure (\<lambda>(st, buf). length buf)")
  show "wf (measure (\<lambda>(st, buf). length buf))" by simp
next
  fix st :: bridge and buf :: jsstring and i :: nat
  assume "indexOf buf CRLF = Some i"
  then have "i + 2 \<le> length buf"
    using indexOf_bound [of buf CRLF i] by (simp add: CRLF_def)
  then show "((handleLine (trim (take i buf)) st, drop (i + 2) buf), (st, buf))
      \<in> measure (\<lambda>(st, buf). length buf)"
    by simp
qed

definition onData :: "nat \<Rightarrow> byte list \<Rightarrow> bridge \<Rightarrow> bridge" where
  "onData c data st =
     (let (st', buf) = processBuffer st (dataBuffer (socks st c) @ toString data)
      in st'\<lparr>socks := (socks st')(c := (socks st' c)\<lparr>dataBuffer := buf\<rparr>)\<rparr>)"

section \<open>Connecting and reconnecting\<close>

definition retryDelays :: "nat list" where
  "retryDelays = [2000, 4000, 16000]"

definition maxRetryDelay :: nat where
  "maxRetryDelay = 30000"

definition scheduleReconnect :: "nat \<Rightarrow> nat \<Rightarrow> bridge \<Rightarrow> bridge" where
  "scheduleReconnect delay idx st =
     (if \<not> reconnectScheduled st then
        (let st = update (Node VmixConnected) (BoolV False) (st\<lparr>reconnectScheduled := True\<rparr>)
         in st\<lparr>timers := timers st @ [(delay, idx)], timeouts := timeouts st @ [delay]\<rparr>)
      else st)"

text \<open>\<^verbatim>\<open>connectToVMix(idx)\<close> creates a socket, which starts connecting, with its own
  \<open>delayIndex\<close> and an empty \<open>dataBuffer\<close>.\<close>

definition connectToVMix :: "nat \<Rightarrow> bridge \<Rightarrow> bridge" where
  "connectToVMix idx st =
     st\<lparr>socks := (socks st)(nsocks st := \<lparr>delayIndex = idx, dataBuffer = []\<rparr>),
        phase := (phase st)(nsocks st := Connecting),
        nsocks := nsocks st + 1\<rparr>"

text \<open>The callback of \<^verbatim>\<open>net.createConnection\<close> for socket \<open>c\<close>.\<close>

definition onConnect :: "nat \<Rightarrow> bridge \<Rightarrow> bridge" where
  "onConnect c st =
     (let st = st\<lparr>vmixConnection := Some c\<rparr>;
          st = update (Node VmixConnected) (BoolV True) st;
          st = st\<lparr>reconnectScheduled := False\<rparr>;
          st = st\<lparr>socks := (socks st)(c := (socks st c)\<lparr>delayIndex := 0\<rparr>)\<rparr>;
          st = st\<lparr>written := written st @ [(c, js ''SUBSCRIBE TALLY'' @ CRLF)]\<rparr>
      in st\<lparr>written := written st @ [(c, js ''SUBSCRIBE ACTS'' @ CRLF)]\<rparr>)"

text \<open>The delay and the next index that the \<^verbatim>\<open>'error'\<close> and \<^verbatim>\<open>'close'\<close> handlers
  compute from the socket's \<open>delayIndex\<close>.\<close>

definition retryDelay :: "nat \<Rightarrow> nat" where
  "retryDelay idx = (if idx < length retryDelays then retryDelays ! idx else maxRetryDelay)"

definition nextIndex :: "nat \<Rightarrow> nat" where
  "nextIndex idx = (if idx < length retryDelays then idx + 1 else idx)"

definition onError :: "nat \<Rightarrow> jsstring \<Rightarrow> bridge \<Rightarrow> bridge" where
  "onError c code st =
     (let st = st\<lparr>vmixConnection := None\<rparr> in
      if code = js ''ECONNREFUSED'' then
        (let delay = retryDelay (delayIndex (socks st c))
         in scheduleReconnect delay (nextIndex (delayIndex (socks st c))) st)
      else st)"

definition onClose :: "nat \<Rightarrow> bridge \<Rightarrow> bridge" where
  "onClose c st =
     (let st = st\<lparr>vmixConnection := None\<rparr>;
          delay = retryDelay (delayIndex (socks st c))
      in scheduleReconnect delay (nextIndex (delayIndex (socks st c))) st)"

text \<open>The callback that \<^verbatim>\<open>scheduleReconnect\<close> hands to \<^verbatim>\<open>setTimeout\<close>.\<close>

definition onTimeout :: "nat \<Rightarrow> bridge \<Rightarrow> bridge" where
  "onTimeout idx st = connectToVMix idx (st\<lparr>reconnectScheduled := False\<rparr>)"

declare tallyLoop.simps [simp del]
declare processBuffer.simps [simp del]

section \<open>Start-up and the events of the runtime\<close>

text \<open>The tree after \<^verbatim>\<open>s.init(tree)\<close>: every parameter is \<^verbatim>\<open>false\<close>.\<close>

definition initialTree :: "node \<rightharpoonup> value" where
  "initialTree n =
     (case n of
        ProgramTally k \<Rightarrow> if 1 \<le> k \<and> k \<le> 32 then Some (BoolV False) else None
      | PreviewTally k \<Rightarrow> if 1 \<le> k \<and> k \<le> 32 then Some (BoolV False) else None
      | VmixConnected \<Rightarrow> Some (BoolV False)
      | ActsStatus a \<Rightarrow> Some (BoolV False))"

text \<open>The state once the module has been loaded: the last statement is
  \<^verbatim>\<open>connectToVMix()\<close>, whose index defaults to 0.\<close>

definition startup :: bridge where
  "startup =
     connectToVMix 0
       \<lparr>vmixConnection = None, reconnectScheduled = False, tree = initialTree,
        updates = [], socks = (\<lambda>c. \<lparr>delayIndex = 0, dataBuffer = []\<rparr>), nsocks = 0,
        phase = (\<lambda>c. Closed), written = [], timers = [], timeouts = [], received = []\<rparr>"

text \<open>
  What the runtime and the control-tree server deliver, one handler call at a time:
  the connect callback, a chunk of data, the peer ending the stream (no handler is
  registered for it), \<^verbatim>\<open>'error'\<close> with its code, \<^verbatim>\<open>'close'\<close>, the expiry of the
  \<open>k\<close>-th pending timer, an invocation and a set-value request.
\<close>

datatype event =
    Connect nat
  | Data nat "byte list"
  | End nat
  | Error nat jsstring
  | Close nat
  | Timeout nat
  | Invoke jsstring int
  | SetValue node "value"

definition noneErrored :: "bridge \<Rightarrow> bool" where
  "noneErrored st = (Errored \<notin> set (map (phase st) [0..<nsocks st]))"

text \<open>
  \<open>deliver\<close> runs the handler of an event, when the runtime can deliver that event
  (\<open>None\<close> when it cannot). A set-value request whose handler throws is followed no
  further (\<open>None\<close> as well). The conditions are the contract of a Node socket: it
  connects once, delivers data only while open, emits \<^verbatim>\<open>'error'\<close> at most once and
  \<^verbatim>\<open>'close'\<close> last, after which nothing follows. A back-off timer (two seconds or more)
  does not expire between the \<^verbatim>\<open>'error'\<close> of a socket and the \<^verbatim>\<open>'close'\<close> that
  follows it directly.
\<close>

fun deliver :: "event \<Rightarrow> bridge \<Rightarrow> bridge option" where
  "deliver (Connect c) st =
     (if c < nsocks st \<and> phase st c = Connecting
      then Some (onConnect c (st\<lparr>phase := (phase st)(c := Open)\<rparr>)) else None)"
| "deliver (Data c d) st =
     (if c < nsocks st \<and> phase st c = Open then Some (onData c d st) else None)"
| "deliver (End c) st =
     (if c < nsocks st \<and> phase st c = Open
      then Some (st\<lparr>phase := (phase st)(c := Ended)\<rparr>) else None)"
| "deliver (Error c code) st =
     (if c < nsocks st \<and> (phase st c = Connecting \<or> phase st c = Open \<or> phase st c = Ended)
      then Some (onError c code (st\<lparr>phase := (phase st)(c := Errored)\<rparr>)) else None)"
| "deliver (Close c) st =
     (if c < nsocks st \<and> (phase st c = Open \<or> phase st c = Ended \<or> phase st c = Errored)
      then Some (onClose c (st\<lparr>phase := (phase st)(c := Closed)\<rparr>)) else None)"
| "deliver (Timeout k) st =
     (if k < length (timers st) \<and> noneErrored st
      then Some (onTimeout (snd (timers st ! k))
                   (st\<lparr>timers := take k (timers st) @ drop (Suc k) (timers st)\<rparr>))
      else None)"
| "deliver (Invoke identifier iid) st = Some (snd (onInvocation identifier iid st))"
| "deliver (SetValue n v) st =
     (case onSetValue n v st of Inl e \<Rightarrow> None | Inr (ok, st') \<Rightarrow> Some st')"

fun run :: "event list \<Rightarrow> bridge \<Rightarrow> bridge option" where
  "run [] st = Some st"
| "run (e # es) st = (case deliver e st of None \<Rightarrow> None | Some st' \<Rightarrow> run es st')"

text \<open>The value of the \<^verbatim>\<open>vMix Connected\<close> parameter.\<close>

definition connectedFlag :: "bridge \<Rightarrow> value option" where
  "connectedFlag st = tree st VmixConnected"

section \<open>Predicates for the statements and their proofs\<close>

text \<open>The part of the state that handling received data leaves alone.\<close>

definition ctl ::
  "bridge \<Rightarrow> nat option \<times> bool \<times> (nat \<Rightarrow> sock) \<times> nat \<times> (nat \<Rightarrow> phase) \<times>
     (nat \<times> jsstring) list \<times> (nat \<times> nat) list \<times> nat list \<times> value option" where
  "ctl st = (vmixConnection st, reconnectScheduled st, socks st, nsocks st, phase st,
             written st, timers st, timeouts st, tree st VmixConnected)"

text \<open>A set-value request on the connected flag itself, and a connect callback.\<close>

definition setsFlag :: "event \<Rightarrow> bool" where
  "setsFlag e = (case e of SetValue n v \<Rightarrow> n = VmixConnected | _ \<Rightarrow> False)"

definition isConnect :: "event \<Rightarrow> bool" where
  "isConnect e = (case e of Connect c \<Rightarrow> True | _ \<Rightarrow> False)"

text \<open>Both subscription commands have been written to socket \<open>c\<close>.\<close>

definition subscribed :: "bridge \<Rightarrow> nat \<Rightarrow> bool" where
  "subscribed st c =
     ((c, js ''SUBSCRIBE TALLY'' @ CRLF) \<in> set (written st) \<and>
      (c, js ''SUBSCRIBE ACTS'' @ CRLF) \<in> set (written st))"

text \<open>The invariant of timers and sockets: at most one timer is pending, and exactly
  when the guard flag is set; every socket but the newest is closed, and the newest has
  failed or is closed while a timer is pending; a connected socket has index 0.\<close>

definition timerInv :: "bridge \<Rightarrow> bool" where
  "timerInv st =
     (length (timers st) \<le> 1 \<and> (reconnectScheduled st \<longleftrightarrow> timers st \<noteq> []) \<and>
      0 < nsocks st \<and> (\<forall>c. Suc c < nsocks st \<longrightarrow> phase st c = Closed) \<and>
      (timers st \<noteq> [] \<longrightarrow>
         phase st (nsocks st - 1) = Errored \<or> phase st (nsocks st - 1) = Closed) \<and>
      (\<forall>c. c < nsocks st \<and> (phase st c = Open \<or> phase st c = Ended)
           \<longrightarrow> delayIndex (socks st c) = 0))"

text \<open>The invariant of the connected flag, as long as no set-value request is made on
  the flag itself.\<close>

definition flagInv :: "bridge \<Rightarrow> bool" where
  "flagInv st =
     ((connectedFlag st = Some (BoolV True) \<or> connectedFlag st = Some (BoolV False)) \<and>
      (\<forall>c. vmixConnection st = Some c \<longrightarrow>
            connectedFlag st = Some (BoolV True) \<and> subscribed st c) \<and>
      (reconnectScheduled st \<longrightarrow>
            connectedFlag st = Some (BoolV False) \<and> vmixConnection st = None) \<and>
      (connectedFlag st = Some (BoolV True) \<longrightarrow>
            vmixConnection st \<noteq> None \<or> (\<exists>c<nsocks st. phase st c = Errored)))"

text \<open>How a connection is lost, as the runtime reports it: with an error (its code:
  \<^verbatim>\<open>ECONNREFUSED\<close>, \<^verbatim>\<open>ECONNRESET\<close>, ...) and then the close, by the peer ending
  the stream and then the close, or by the close alone.\<close>

datatype failure = Failed jsstring | EndedByPeer | JustClosed

fun failureEvents :: "nat \<Rightarrow> failure \<Rightarrow> event list" where
  "failureEvents c (Failed code) = [Error c code, Close c]"
| "failureEvents c EndedByPeer = [End c, Close c]"
| "failureEvents c JustClosed = [Close c]"

text \<open>Consecutive failed attempts, starting with socket \<open>c\<close>: each attempt fails with
  the given error code, is closed, and the back-off timer starts the next one.\<close>

fun attempts :: "nat \<Rightarrow> jsstring list \<Rightarrow> event list" where
  "attempts c [] = []"
| "attempts c (code # codes) = [Error c code, Close c, Timeout 0] @ attempts (Suc c) codes"

text \<open>The delays of \<open>n\<close> consecutive failures, the first on a socket whose index is
  \<open>idx\<close>: what the handlers compute, one failure after the other.\<close>

fun delaysFrom :: "nat \<Rightarrow> nat \<Rightarrow> nat list" where
  "delaysFrom idx 0 = []"
| "delaysFrom idx (Suc n) = retryDelay idx # delaysFrom (nextIndex idx) n"

text \<open>The two calls of \<^verbatim>\<open>s.update\<close> that the tally loop makes at index \<open>i\<close>.\<close>

definition tallyPair :: "jsstring \<Rightarrow> nat \<Rightarrow> (jsval \<times> value) list" where
  "tallyPair t i =
     [(Node (ProgramTally (i + 1)), BoolV (t ! i = of_char CHR ''1'')),
      (Node (PreviewTally (i + 1)), BoolV (t ! i = of_char CHR ''2''))]"

text \<open>The state with \<open>r\<close> stored as the \<open>dataBuffer\<close> of socket \<open>c\<close>.\<close>

definition setBuffer :: "nat \<Rightarrow> jsstring \<Rightarrow> bridge \<Rightarrow> bridge" where
  "setBuffer c r st = st\<lparr>socks := (socks st)(c := (socks st c)\<lparr>dataBuffer := r\<rparr>)\<rparr>"

section \<open>Received data leaves the connection state alone\<close>

lemma ctl_update: "t \<noteq> Node VmixConnected \<Longrightarrow> ctl (update t v st) = ctl st"
  by (cases t) (auto simp: ctl_def update_def)

lemma tallyStep_eq:
  "i < 32 \<Longrightarrow> tallyStep t i st =
     update (Node (PreviewTally (Suc i))) (BoolV (t ! i = 0x32))
       (update (Node (ProgramTally (Suc i))) (BoolV (t ! i = 0x31)) st)"
  by (simp add: tallyStep_def programTallyNodes_def previewTallyNodes_def Let_def)

lemma ctl_tallyLoop: "ctl (tallyLoop t i st) = ctl st"
proof (induction t i st rule: tallyLoop.induct)
  case (1 t i st)
  show ?case
  proof (cases "i < length t \<and> i < 32")
    case True
    then have "ctl (tallyLoop t i st) = ctl (tallyStep t i st)"
      using "1.IH" by (simp add: tallyLoop.simps [of t i st])
    also have "\<dots> = ctl st"
      using True by (simp add: tallyStep_eq ctl_update)
    finally show ?thesis .
  next
    case False
    then show ?thesis by (auto simp add: tallyLoop.simps [of t i st])
  qed
qed

lemma lookup_acts_not_flag: "lookup actsStatusNodes k \<noteq> Node VmixConnected"
  by (auto simp: lookup_def actsStatusNodes_def split: option.splits if_splits)

lemma ctl_actsLine: "ctl (actsLine line st) = ctl st"
  by (simp add: actsLine_def Let_def ctl_update lookup_acts_not_flag)

lemma ctl_received: "ctl (st\<lparr>received := r\<rparr>) = ctl st"
  by (simp add: ctl_def)

lemma ctl_handleLine: "ctl (handleLine line st) = ctl st"
  by (simp add: handleLine_def Let_def ctl_tallyLoop ctl_actsLine ctl_received)

lemma ctl_processBuffer: "ctl (fst (processBuffer st buf)) = ctl st"
proof (induction st buf rule: processBuffer.induct)
  case (1 st buf)
  show ?case
  proof (cases "indexOf buf CRLF")
    case None
    then show ?thesis by (simp add: processBuffer.simps [of st buf])
  next
    case (Some i)
    then show ?thesis
      using "1.IH" [of i] by (simp add: processBuffer.simps [of st buf] ctl_handleLine)
  qed
qed

lemma processBuffer_frame:
  assumes "processBuffer st buf = (st', r)"
  shows "vmixConnection st' = vmixConnection st" "reconnectScheduled st' = reconnectScheduled st"
    "socks st' = socks st" "nsocks st' = nsocks st" "phase st' = phase st"
    "written st' = written st" "timers st' = timers st" "timeouts st' = timeouts st"
    "tree st' VmixConnected = tree st VmixConnected"
  using ctl_processBuffer [of st buf] assms by (simp_all add: ctl_def)

lemma onData_frame:
  "vmixConnection (onData c d st) = vmixConnection st"
  "reconnectScheduled (onData c d st) = reconnectScheduled st"
  "nsocks (onData c d st) = nsocks st"
  "phase (onData c d st) = phase st"
  "written (onData c d st) = written st"
  "timers (onData c d st) = timers st"
  "timeouts (onData c d st) = timeouts st"
  "tree (onData c d st) VmixConnected = tree st VmixConnected"
  "delayIndex (socks (onData c d st) k) = delayIndex (socks st k)"
proof -
  obtain st' r where pb: "processBuffer st (dataBuffer (socks st c) @ toString d) = (st', r)"
    by (cases "processBuffer st (dataBuffer (socks st c) @ toString d)")
  have od: "onData c d st = st'\<lparr>socks := (socks st')(c := (socks st' c)\<lparr>dataBuffer := r\<rparr>)\<rparr>"
    by (simp add: onData_def pb)
  note fr = processBuffer_frame [OF pb]
  show "vmixConnection (onData c d st) = vmixConnection st" by (simp add: od fr)
  show "reconnectScheduled (onData c d st) = reconnectScheduled st" by (simp add: od fr)
  show "nsocks (onData c d st) = nsocks st" by (simp add: od fr)
  show "phase (onData c d st) = phase st" by (simp add: od fr)
  show "written (onData c d st) = written st" by (simp add: od fr)
  show "timers (onData c d st) = timers st" by (simp add: od fr)
  show "timeouts (onData c d st) = timeouts st" by (simp add: od fr)
  show "tree (onData c d st) VmixConnected = tree st VmixConnected" by (simp add: od fr)
  show "delayIndex (socks (onData c d st) k) = delayIndex (socks st k)" by (simp add: od fr)
qed

section \<open>The invariant of timers and sockets\<close>

lemma startup_simps:
  "vmixConnection startup = None" "reconnectScheduled startup = False"
  "tree startup = initialTree" "updates startup = []" "nsocks startup = 1"
  "phase startup 0 = Connecting" "delayIndex (socks startup 0) = 0"
  "dataBuffer (socks startup 0) = []" "written startup = []" "timers startup = []"
  "timeouts startup = []" "received startup = []"
  by (simp_all add: startup_def connectToVMix_def)

lemma setValue_delivered:
  "deliver (SetValue n v) st = Some st' \<Longrightarrow> st' = update (Node n) v st \<and> (\<exists>b. v = BoolV b)"
  by (cases v) (simp_all add: onSetValue_def s_update_def)

lemma after_connect_simps:
  "run [Connect 0] startup = Some (onConnect 0 (startup\<lparr>phase := (phase startup)(0 := Open)\<rparr>))"
  "nsocks (onConnect 0 (startup\<lparr>phase := (phase startup)(0 := Open)\<rparr>)) = 1"
  "phase (onConnect 0 (startup\<lparr>phase := (phase startup)(0 := Open)\<rparr>)) 0 = Open"
  "timeouts (onConnect 0 (startup\<lparr>phase := (phase startup)(0 := Open)\<rparr>)) = []"
  "reconnectScheduled (onConnect 0 (startup\<lparr>phase := (phase startup)(0 := Open)\<rparr>)) = False"
  "vmixConnection (onConnect 0 (startup\<lparr>phase := (phase startup)(0 := Open)\<rparr>)) = Some 0"
  "delayIndex (socks (onConnect 0 (startup\<lparr>phase := (phase startup)(0 := Open)\<rparr>)) 0) = 0"
  by (simp_all add: startup_simps onConnect_def update_def Let_def)

lemma live_is_newest:
  assumes "timerInv st" "c < nsocks st" "phase st c \<noteq> Closed"
  shows "nsocks st = Suc c"
proof (rule ccontr)
  assume "nsocks st \<noteq> Suc c"
  with assms(2) have "Suc c < nsocks st" by simp
  with assms(1) have "phase st c = Closed" by (simp add: timerInv_def)
  with assms(3) show False by simp
qed

lemma timerInv_startup: "timerInv startup"
  by (simp add: timerInv_def startup_def connectToVMix_def)

lemma noneErrored_iff: "noneErrored st \<longleftrightarrow> (\<forall>c<nsocks st. phase st c \<noteq> Errored)"
  by (force simp: noneErrored_def)

lemma timerInv_deliver:
  assumes inv: "timerInv st" and d: "deliver e st = Some st'"
  shows "timerInv st'"
proof (cases e)
  case (Connect c)
  with d have c: "c < nsocks st" "phase st c = Connecting"
    and st': "st' = onConnect c (st\<lparr>phase := (phase st)(c := Open)\<rparr>)"
    by (auto split: if_splits)
  have new: "nsocks st = Suc c" using live_is_newest [OF inv c(1)] c(2) by simp
  have "timers st = []" using inv c(2) new by (auto simp: timerInv_def)
  then show ?thesis
    using inv new unfolding st' by (auto simp: timerInv_def onConnect_def update_def Let_def)
next
  case (Data c b)
  with d have st': "st' = onData c b st" by (auto split: if_splits)
  show ?thesis using inv unfolding st' timerInv_def by (simp add: onData_frame)
next
  case (End c)
  with d have c: "c < nsocks st" "phase st c = Open"
    and st': "st' = st\<lparr>phase := (phase st)(c := Ended)\<rparr>"
    by (auto split: if_splits)
  have new: "nsocks st = Suc c" using live_is_newest [OF inv c(1)] c(2) by simp
  have "timers st = []" using inv c(2) new by (auto simp: timerInv_def)
  then show ?thesis
    using inv new c unfolding st' by (auto simp: timerInv_def)
next
  case (Error c code)
  with d have c: "c < nsocks st" "phase st c \<noteq> Closed" "phase st c \<noteq> Errored"
    and st': "st' = onError c code (st\<lparr>phase := (phase st)(c := Errored)\<rparr>)"
    by (auto split: if_splits)
  have new: "nsocks st = Suc c" using live_is_newest [OF inv c(1,2)] .
  have "timers st = []" using inv c new by (auto simp: timerInv_def)
  then show ?thesis
    using inv new unfolding st'
    by (auto simp: timerInv_def onError_def scheduleReconnect_def update_def Let_def)
next
  case (Close c)
  with d have c: "c < nsocks st" "phase st c \<noteq> Closed"
    and st': "st' = onClose c (st\<lparr>phase := (phase st)(c := Closed)\<rparr>)"
    by (auto split: if_splits)
  have new: "nsocks st = Suc c" using live_is_newest [OF inv c(1,2)] .
  show ?thesis
    using inv new unfolding st'
    by (auto simp: timerInv_def onClose_def scheduleReconnect_def update_def Let_def)
next
  case (Timeout k)
  with d have k: "k < length (timers st)" "noneErrored st"
    and st': "st' = onTimeout (snd (timers st ! k))
                     (st\<lparr>timers := take k (timers st) @ drop (Suc k) (timers st)\<rparr>)"
    by (auto split: if_splits)
  from inv k(1) have one: "length (timers st) = 1" "k = 0" by (auto simp: timerInv_def)
  from inv one have "phase st (nsocks st - 1) = Errored \<or> phase st (nsocks st - 1) = Closed"
    by (auto simp: timerInv_def)
  moreover from inv have "0 < nsocks st" by (simp add: timerInv_def)
  ultimately have last: "phase st (nsocks st - 1) = Closed"
    using k(2) by (auto simp: noneErrored_iff)
  have allc: "phase st c = Closed" if "c < nsocks st" for c
  proof (cases "Suc c < nsocks st")
    case True
    with inv show ?thesis by (simp add: timerInv_def)
  next
    case False
    with that have "c = nsocks st - 1" by simp
    with last show ?thesis by simp
  qed
  show ?thesis
    using inv one allc unfolding st'
    by (auto simp: timerInv_def onTimeout_def connectToVMix_def less_Suc_eq)
next
  case (Invoke i n)
  with d have "st' = snd (onInvocation i n st)" by simp
  then show ?thesis
    using inv by (auto simp: timerInv_def onInvocation_def Let_def split: option.splits)
next
  case (SetValue n v)
  with d have "st' = update (Node n) v st" using setValue_delivered by blast
  then show ?thesis using inv by (simp add: timerInv_def update_def)
qed

lemma timerInv_run: "timerInv st \<Longrightarrow> run es st = Some st' \<Longrightarrow> timerInv st'"
proof (induction es arbitrary: st)
  case Nil
  then show ?case by simp
next
  case (Cons e es)
  then obtain st1 where "deliver e st = Some st1" "run es st1 = Some st'"
    by (auto split: option.splits)
  with Cons.IH Cons.prems(1) timerInv_deliver show ?case by blast
qed

lemma connecting_not_scheduled:
  assumes "timerInv st" "nsocks st = Suc c"
    "phase st c = Connecting \<or> phase st c = Open \<or> phase st c = Ended"
  shows "\<not> reconnectScheduled st"
  using assms by (auto simp: timerInv_def)

lemma guard_kept:
  assumes d: "deliver e st = Some st'" and g: "reconnectScheduled st"
    and e: "\<not> isConnect e" "\<forall>k. e \<noteq> Timeout k"
  shows "reconnectScheduled st'"
proof (cases e)
  case (Data c b)
  with d have "st' = onData c b st" by (auto split: if_splits)
  with g show ?thesis by (simp add: onData_frame)
next
  case (SetValue n v)
  with d have "st' = update (Node n) v st" using setValue_delivered by blast
  with g show ?thesis by (simp add: update_def)
qed (use d g e in \<open>auto simp: isConnect_def onError_def onClose_def scheduleReconnect_def
      onInvocation_def update_def Let_def split: if_splits option.splits\<close>)

section \<open>The invariant of the connected flag\<close>

lemma flagInv_startup: "flagInv startup"
  by (simp add: flagInv_def startup_def connectToVMix_def connectedFlag_def initialTree_def)

lemma flagInv_deliver:
  assumes inv: "flagInv st" and d: "deliver e st = Some st'" and nf: "\<not> setsFlag e"
  shows "flagInv st'"
proof (cases e)
  case (Connect c)
  with d have c: "c < nsocks st"
    and st': "st' = onConnect c (st\<lparr>phase := (phase st)(c := Open)\<rparr>)"
    by (auto split: if_splits)
  show ?thesis
    unfolding st'
    by (simp add: flagInv_def onConnect_def update_def Let_def connectedFlag_def subscribed_def)
next
  case (Data c b)
  with d have st': "st' = onData c b st" by (auto split: if_splits)
  show ?thesis
    using inv unfolding st' flagInv_def connectedFlag_def subscribed_def
    by (simp add: onData_frame)
next
  case (End c)
  with d have c: "c < nsocks st" "phase st c = Open"
    and st': "st' = st\<lparr>phase := (phase st)(c := Ended)\<rparr>"
    by (auto split: if_splits)
  have ph: "(\<exists>k<nsocks st'. phase st' k = Errored) = (\<exists>k<nsocks st. phase st k = Errored)"
  proof
    assume "\<exists>k<nsocks st'. phase st' k = Errored"
    then obtain k where "k < nsocks st'" "phase st' k = Errored" by blast
    then have "k < nsocks st \<and> phase st k = Errored"
      unfolding st' by (cases "k = c") simp_all
    then show "\<exists>k<nsocks st. phase st k = Errored" by blast
  next
    assume "\<exists>k<nsocks st. phase st k = Errored"
    then obtain k where k: "k < nsocks st" "phase st k = Errored" by blast
    with c have "k \<noteq> c" by auto
    with k have "k < nsocks st' \<and> phase st' k = Errored"
      unfolding st' by simp
    then show "\<exists>k<nsocks st'. phase st' k = Errored" by blast
  qed
  have same: "connectedFlag st' = connectedFlag st" "vmixConnection st' = vmixConnection st"
    "reconnectScheduled st' = reconnectScheduled st" "subscribed st' = subscribed st"
    unfolding st' by (simp_all add: connectedFlag_def subscribed_def fun_eq_iff)
  show ?thesis
    using inv unfolding flagInv_def ph same .
next
  case (Error c code)
  with d have c: "c < nsocks st"
    and st': "st' = onError c code (st\<lparr>phase := (phase st)(c := Errored)\<rparr>)"
    by (auto split: if_splits)
  show ?thesis
    using inv c unfolding st' flagInv_def connectedFlag_def subscribed_def
    by (auto simp: onError_def scheduleReconnect_def update_def Let_def)
next
  case (Close c)
  with d have c: "c < nsocks st"
    and st': "st' = onClose c (st\<lparr>phase := (phase st)(c := Closed)\<rparr>)"
    by (auto split: if_splits)
  show ?thesis
    using inv c unfolding st' flagInv_def connectedFlag_def subscribed_def
    by (auto simp: onClose_def scheduleReconnect_def update_def Let_def)
next
  case (Timeout k)
  with d have k: "noneErrored st"
    and st': "st' = onTimeout (snd (timers st ! k))
                     (st\<lparr>timers := take k (timers st) @ drop (Suc k) (timers st)\<rparr>)"
    by (auto split: if_splits)
  show ?thesis
    using inv k unfolding st' flagInv_def connectedFlag_def subscribed_def
    by (auto simp: onTimeout_def connectToVMix_def noneErrored_iff)
next
  case (Invoke i n)
  with d have "st' = snd (onInvocation i n st)" by simp
  then show ?thesis
    using inv unfolding flagInv_def connectedFlag_def subscribed_def
    by (auto simp: onInvocation_def Let_def split: option.splits)
next
  case (SetValue n v)
  with d nf have "st' = update (Node n) v st" "n \<noteq> VmixConnected"
    using setValue_delivered by (auto simp: setsFlag_def)
  then show ?thesis
    using inv unfolding flagInv_def connectedFlag_def subscribed_def
    by (simp add: update_def)
qed

lemma flagInv_run:
  "flagInv st \<Longrightarrow> run es st = Some st' \<Longrightarrow> \<not> list_ex setsFlag es \<Longrightarrow> flagInv st'"
proof (induction es arbitrary: st)
  case Nil
  then show ?case by simp
next
  case (Cons e es)
  then obtain st1 where "deliver e st = Some st1" "run es st1 = Some st'"
    by (auto split: option.splits)
  with Cons.IH Cons.prems flagInv_deliver show ?case by (metis list_ex_Cons_iff)
qed

lemma flag_false_deliver:
  assumes f: "connectedFlag st = Some (BoolV False)" and d: "deliver e st = Some st'"
    and nf: "\<not> setsFlag e" and nc: "\<not> isConnect e"
  shows "connectedFlag st' = Some (BoolV False)"
proof (cases e)
  case (Data c b)
  with d have st': "st' = onData c b st" by (auto split: if_splits)
  show ?thesis using f unfolding st' connectedFlag_def by (simp add: onData_frame)
next
  case (SetValue n v)
  with d nf have "st' = update (Node n) v st" "n \<noteq> VmixConnected"
    using setValue_delivered by (auto simp: setsFlag_def)
  then show ?thesis using f by (simp add: connectedFlag_def update_def)
qed (use f d nc in \<open>auto simp: isConnect_def connectedFlag_def onError_def onClose_def
      scheduleReconnect_def update_def Let_def onTimeout_def connectToVMix_def
      onInvocation_def split: if_splits option.splits\<close>)

lemma flag_false_run:
  "connectedFlag st = Some (BoolV False) \<Longrightarrow> run es st = Some st' \<Longrightarrow>
   \<not> list_ex setsFlag es \<Longrightarrow> \<not> list_ex isConnect es \<Longrightarrow> connectedFlag st' = Some (BoolV False)"
proof (induction es arbitrary: st)
  case Nil
  then show ?case by simp
next
  case (Cons e es)
  then obtain st1 where "deliver e st = Some st1" "run es st1 = Some st'"
    by (auto split: option.splits)
  with Cons.IH Cons.prems flag_false_deliver show ?case by (metis list_ex_Cons_iff)
qed

section \<open>What a transport failure does\<close>

lemma onClose_result:
  assumes inv: "timerInv st" and c0: "c < nsocks st"
    and c1: "phase st c = Open \<or> phase st c = Ended \<or> phase st c = Errored"
    and st': "st' = onClose c (st\<lparr>phase := (phase st)(c := Closed)\<rparr>)"
  shows "vmixConnection st' = None" "reconnectScheduled st'" "length (timers st') = 1"
    "\<not> reconnectScheduled st \<Longrightarrow>
       timers st' = [(retryDelay (delayIndex (socks st c)), nextIndex (delayIndex (socks st c)))]
       \<and> timeouts st' = timeouts st @ [retryDelay (delayIndex (socks st c))]
       \<and> connectedFlag st' = Some (BoolV False)"
    "reconnectScheduled st \<Longrightarrow>
       timers st' = timers st \<and> timeouts st' = timeouts st
       \<and> connectedFlag st' = connectedFlag st"
    "written st' = written st" "received st' = received st" "nsocks st' = nsocks st"
    "socks st' = socks st"
    "\<forall>n. n \<noteq> VmixConnected \<longrightarrow> tree st' n = tree st n"
    "noneErrored st'" "timerInv st'"
proof -
  have c: "c < nsocks st" "phase st c \<noteq> Closed" using c0 c1 by auto
  have new: "nsocks st = Suc c" using live_is_newest [OF inv c] .
  have one: "reconnectScheduled st \<Longrightarrow> length (timers st) = 1"
    using inv by (cases "timers st") (auto simp: timerInv_def)
  have emp: "\<not> reconnectScheduled st \<Longrightarrow> timers st = []"
    using inv by (auto simp: timerInv_def)
  show "vmixConnection st' = None" "reconnectScheduled st'"
    "written st' = written st" "received st' = received st" "nsocks st' = nsocks st"
    "socks st' = socks st"
    "\<forall>n. n \<noteq> VmixConnected \<longrightarrow> tree st' n = tree st n"
    unfolding st' by (simp_all add: onClose_def scheduleReconnect_def update_def Let_def)
  show "length (timers st') = 1"
    using one emp unfolding st'
    by (cases "reconnectScheduled st")
       (simp_all add: onClose_def scheduleReconnect_def update_def Let_def)
  show "\<not> reconnectScheduled st \<Longrightarrow>
       timers st' = [(retryDelay (delayIndex (socks st c)), nextIndex (delayIndex (socks st c)))]
       \<and> timeouts st' = timeouts st @ [retryDelay (delayIndex (socks st c))]
       \<and> connectedFlag st' = Some (BoolV False)"
    using emp unfolding st'
    by (simp add: onClose_def scheduleReconnect_def update_def Let_def connectedFlag_def)
  show "reconnectScheduled st \<Longrightarrow>
       timers st' = timers st \<and> timeouts st' = timeouts st
       \<and> connectedFlag st' = connectedFlag st"
    unfolding st'
    by (simp add: onClose_def scheduleReconnect_def update_def Let_def connectedFlag_def)
  have ns: "nsocks st' = nsocks st" and ph: "phase st' = (phase st)(c := Closed)"
    unfolding st' by (simp_all add: onClose_def scheduleReconnect_def update_def Let_def)
  have "phase st' k \<noteq> Errored" if "k < nsocks st'" for k
  proof (cases "k = c")
    case True
    then show ?thesis by (simp add: ph)
  next
    case False
    with that new have "Suc k < nsocks st" by (simp add: ns)
    with inv have "phase st k = Closed" by (simp add: timerInv_def)
    with False show ?thesis by (simp add: ph)
  qed
  then show "noneErrored st'" by (simp add: noneErrored_iff)
  have "deliver (Close c) st = Some st'"
    using c0 c1 unfolding st' by auto
  then show "timerInv st'" using timerInv_deliver [OF inv] by blast
qed

lemma onError_result:
  assumes inv: "timerInv st" and c0: "c < nsocks st"
    and c1: "phase st c = Connecting \<or> phase st c = Open \<or> phase st c = Ended"
    and s1: "s1 = onError c code (st\<lparr>phase := (phase st)(c := Errored)\<rparr>)"
  shows "\<not> reconnectScheduled st" "timerInv s1" "c < nsocks s1" "phase s1 c = Errored"
    "socks s1 = socks st" "written s1 = written st" "received s1 = received st"
    "\<forall>n. n \<noteq> VmixConnected \<longrightarrow> tree s1 n = tree st n"
    "code = js ''ECONNREFUSED'' \<Longrightarrow> reconnectScheduled s1
       \<and> timers s1 = [(retryDelay (delayIndex (socks st c)), nextIndex (delayIndex (socks st c)))]
       \<and> timeouts s1 = timeouts st @ [retryDelay (delayIndex (socks st c))]
       \<and> connectedFlag s1 = Some (BoolV False)"
    "code \<noteq> js ''ECONNREFUSED'' \<Longrightarrow> \<not> reconnectScheduled s1 \<and> timeouts s1 = timeouts st"
    "nsocks s1 = nsocks st"
proof -
  have c: "c < nsocks st" "phase st c \<noteq> Closed" using c0 c1 by auto
  have new: "nsocks st = Suc c" using live_is_newest [OF inv c] .
  have emp: "timers st = []" using inv c1 new by (auto simp: timerInv_def)
  then show ns: "\<not> reconnectScheduled st" using inv by (simp add: timerInv_def)
  have "deliver (Error c code) st = Some s1"
    using c0 c1 unfolding s1 by auto
  then show "timerInv s1" using timerInv_deliver [OF inv] by blast
  show "c < nsocks s1" "phase s1 c = Errored"
    "socks s1 = socks st" "written s1 = written st" "received s1 = received st"
    "\<forall>n. n \<noteq> VmixConnected \<longrightarrow> tree s1 n = tree st n"
    using c0 unfolding s1
    by (simp_all add: onError_def scheduleReconnect_def update_def Let_def)
  show "code = js ''ECONNREFUSED'' \<Longrightarrow> reconnectScheduled s1
       \<and> timers s1 = [(retryDelay (delayIndex (socks st c)), nextIndex (delayIndex (socks st c)))]
       \<and> timeouts s1 = timeouts st @ [retryDelay (delayIndex (socks st c))]
       \<and> connectedFlag s1 = Some (BoolV False)"
    using ns emp unfolding s1
    by (simp add: onError_def scheduleReconnect_def update_def Let_def connectedFlag_def)
  show "code \<noteq> js ''ECONNREFUSED'' \<Longrightarrow> \<not> reconnectScheduled s1 \<and> timeouts s1 = timeouts st"
    using ns unfolding s1 by (simp add: onError_def)
  show "nsocks s1 = nsocks st"
    unfolding s1 by (simp add: onError_def scheduleReconnect_def update_def Let_def)
qed

lemma failure_result:
  assumes inv: "timerInv st" and f: "run (failureEvents c fl) st = Some st'"
  shows "vmixConnection st' = None" "reconnectScheduled st'" "length (timers st') = 1"
    "\<not> reconnectScheduled st \<Longrightarrow>
       timers st' = [(retryDelay (delayIndex (socks st c)), nextIndex (delayIndex (socks st c)))]
       \<and> timeouts st' = timeouts st @ [retryDelay (delayIndex (socks st c))]
       \<and> connectedFlag st' = Some (BoolV False)"
    "reconnectScheduled st \<Longrightarrow>
       timers st' = timers st \<and> timeouts st' = timeouts st
       \<and> connectedFlag st' = connectedFlag st"
    "written st' = written st" "received st' = received st" "nsocks st' = nsocks st"
    "socks st' = socks st"
    "\<forall>n. n \<noteq> VmixConnected \<longrightarrow> tree st' n = tree st n"
    "noneErrored st'" "timerInv st'" "nsocks st = Suc c"
proof -
  have all: "vmixConnection st' = None \<and> reconnectScheduled st' \<and> length (timers st') = 1
    \<and> (\<not> reconnectScheduled st \<longrightarrow>
       timers st' = [(retryDelay (delayIndex (socks st c)), nextIndex (delayIndex (socks st c)))]
       \<and> timeouts st' = timeouts st @ [retryDelay (delayIndex (socks st c))]
       \<and> connectedFlag st' = Some (BoolV False))
    \<and> (reconnectScheduled st \<longrightarrow>
       timers st' = timers st \<and> timeouts st' = timeouts st
       \<and> connectedFlag st' = connectedFlag st)
    \<and> written st' = written st \<and> received st' = received st \<and> nsocks st' = nsocks st
    \<and> socks st' = socks st
    \<and> (\<forall>n. n \<noteq> VmixConnected \<longrightarrow> tree st' n = tree st n)
    \<and> noneErrored st' \<and> timerInv st' \<and> nsocks st = Suc c"
  proof (cases fl)
    case (Failed code)
    define s1 where "s1 = onError c code (st\<lparr>phase := (phase st)(c := Errored)\<rparr>)"
    from f Failed have c: "c < nsocks st"
      "phase st c = Connecting \<or> phase st c = Open \<or> phase st c = Ended"
      and st': "st' = onClose c (s1\<lparr>phase := (phase s1)(c := Closed)\<rparr>)"
      unfolding s1_def by (auto split: if_splits option.splits)
    note e = onError_result [OF inv c s1_def]
    have new: "nsocks st = Suc c" using live_is_newest [OF inv c(1)] c(2) by auto
    note k = onClose_result [OF e(2) e(3) _ st']
    have ph: "phase s1 c = Open \<or> phase s1 c = Ended \<or> phase s1 c = Errored"
      using e(4) by simp
    show ?thesis
    proof (cases "code = js ''ECONNREFUSED''")
      case True
      with e(9) have r: "reconnectScheduled s1" by simp
      show ?thesis
        using e(1) e(5-8) e(9) [OF True] k(1-3) [OF ph] k(5) [OF ph r] k(6-12) [OF ph] e(11) new
        by simp
    next
      case False
      with e(10) have r: "\<not> reconnectScheduled s1" by simp
      show ?thesis
        using e(1) e(5-8) e(10) [OF False] k(1-3) [OF ph] k(4) [OF ph r] k(6-12) [OF ph] e(11) new
        by simp
    qed
  next
    case EndedByPeer
    define s1 where "s1 = st\<lparr>phase := (phase st)(c := Ended)\<rparr>"
    from f EndedByPeer have c: "c < nsocks st" "phase st c = Open"
      and st': "st' = onClose c (s1\<lparr>phase := (phase s1)(c := Closed)\<rparr>)"
      unfolding s1_def by (auto split: if_splits option.splits)
    have "deliver (End c) st = Some s1" using c unfolding s1_def by simp
    then have i1: "timerInv s1" using timerInv_deliver [OF inv] by blast
    have new: "nsocks st = Suc c" using live_is_newest [OF inv c(1)] c(2) by auto
    have c1: "c < nsocks s1" "phase s1 c = Open \<or> phase s1 c = Ended \<or> phase s1 c = Errored"
      using c unfolding s1_def by simp_all
    note k = onClose_result [OF i1 c1 st']
    have same: "reconnectScheduled s1 = reconnectScheduled st" "timers s1 = timers st"
      "timeouts s1 = timeouts st" "socks s1 = socks st" "written s1 = written st"
      "received s1 = received st" "nsocks s1 = nsocks st" "tree s1 = tree st"
      "connectedFlag s1 = connectedFlag st"
      unfolding s1_def by (simp_all add: connectedFlag_def)
    show ?thesis
      using k new unfolding same by simp
  next
    case JustClosed
    from f JustClosed have c: "c < nsocks st"
      "phase st c = Open \<or> phase st c = Ended \<or> phase st c = Errored"
      and st': "st' = onClose c (st\<lparr>phase := (phase st)(c := Closed)\<rparr>)"
      by (auto split: if_splits option.splits)
    have new: "nsocks st = Suc c" using live_is_newest [OF inv c(1)] c(2) by auto
    note k = onClose_result [OF inv c st']
    show ?thesis using k new by simp
  qed
  show "vmixConnection st' = None" "reconnectScheduled st'" "length (timers st') = 1"
    "\<not> reconnectScheduled st \<Longrightarrow>
       timers st' = [(retryDelay (delayIndex (socks st c)), nextIndex (delayIndex (socks st c)))]
       \<and> timeouts st' = timeouts st @ [retryDelay (delayIndex (socks st c))]
       \<and> connectedFlag st' = Some (BoolV False)"
    "reconnectScheduled st \<Longrightarrow>
       timers st' = timers st \<and> timeouts st' = timeouts st
       \<and> connectedFlag st' = connectedFlag st"
    "written st' = written st" "received st' = received st" "nsocks st' = nsocks st"
    "socks st' = socks st"
    "\<forall>n. n \<noteq> VmixConnected \<longrightarrow> tree st' n = tree st n"
    "noneErrored st'" "timerInv st'" "nsocks st = Suc c"
    using all by blast+
qed

lemma run_append:
  "run (xs @ ys) st = (case run xs st of None \<Rightarrow> None | Some s \<Rightarrow> run ys s)"
  by (induction xs arbitrary: st) (auto split: option.splits)

lemma failure_enabled:
  assumes "c < nsocks st"
    and "phase st c = Open \<or> (phase st c = Connecting \<and> (\<exists>code. fl = Failed code))"
  shows "\<exists>s1. run (failureEvents c fl) st = Some s1"
  using assms
  by (cases fl) (auto simp: onError_def scheduleReconnect_def update_def Let_def)

lemma failure_then_timeout:
  assumes inv: "timerInv st" and f: "run (failureEvents c fl) st = Some s1"
    and ns: "\<not> reconnectScheduled st"
  shows "\<exists>st'. deliver (Timeout 0) s1 = Some st' \<and> timerInv st'
     \<and> nsocks st' = Suc (Suc c) \<and> phase st' (Suc c) = Connecting
     \<and> delayIndex (socks st' (Suc c)) = nextIndex (delayIndex (socks st c))
     \<and> timeouts st' = timeouts st @ [retryDelay (delayIndex (socks st c))]"
proof -
  note r = failure_result [OF inv f]
  from r(4) [OF ns] have t: "timers s1 = [(retryDelay (delayIndex (socks st c)),
       nextIndex (delayIndex (socks st c)))]"
    and to: "timeouts s1 = timeouts st @ [retryDelay (delayIndex (socks st c))]"
    by simp_all
  define st' where "st' = onTimeout (nextIndex (delayIndex (socks st c))) (s1\<lparr>timers := []\<rparr>)"
  have d: "deliver (Timeout 0) s1 = Some st'"
    using r(11) t unfolding st'_def by simp
  then have "timerInv st'" using timerInv_deliver [OF r(12)] by blast
  moreover have "nsocks st' = Suc (Suc c)" "phase st' (Suc c) = Connecting"
    "delayIndex (socks st' (Suc c)) = nextIndex (delayIndex (socks st c))"
    "timeouts st' = timeouts st @ [retryDelay (delayIndex (socks st c))]"
    using r(8) r(13) to unfolding st'_def by (simp_all add: onTimeout_def connectToVMix_def)
  ultimately show ?thesis using d by blast
qed

section \<open>Runs of failed attempts\<close>

lemma attempts_run:
  assumes "timerInv st" "nsocks st = Suc c" "phase st c = Connecting"
  shows "\<exists>st'. run (attempts c codes) st = Some st'
     \<and> timeouts st' = timeouts st @ delaysFrom (delayIndex (socks st c)) (length codes)"
  using assms
proof (induction codes arbitrary: st c)
  case Nil
  then show ?case by simp
next
  case (Cons code codes)
  have ns: "\<not> reconnectScheduled st"
    using connecting_not_scheduled Cons.prems by blast
  obtain s1 where f: "run (failureEvents c (Failed code)) st = Some s1"
    using failure_enabled [of c st "Failed code"] Cons.prems by auto
  from failure_then_timeout [OF Cons.prems(1) f ns]
  obtain s2 where s2: "deliver (Timeout 0) s1 = Some s2" "timerInv s2"
    "nsocks s2 = Suc (Suc c)" "phase s2 (Suc c) = Connecting"
    "delayIndex (socks s2 (Suc c)) = nextIndex (delayIndex (socks st c))"
    "timeouts s2 = timeouts st @ [retryDelay (delayIndex (socks st c))]"
    by blast
  from Cons.IH [OF s2(2) s2(3) s2(4)]
  obtain st' where st': "run (attempts (Suc c) codes) s2 = Some st'"
    "timeouts st' = timeouts s2 @ delaysFrom (delayIndex (socks s2 (Suc c))) (length codes)"
    by blast
  have "attempts c (code # codes)
      = failureEvents c (Failed code) @ Timeout 0 # attempts (Suc c) codes"
    by simp
  then have "run (attempts c (code # codes)) st = Some st'"
    using f s2(1) st'(1) by (simp only: run_append option.case run.simps)
  moreover have "timeouts st'
      = timeouts st @ delaysFrom (delayIndex (socks st c)) (length (code # codes))"
    using st'(2) s2(5) s2(6) by simp
  ultimately show ?case by blast
qed

lemma delaysFrom_3: "delaysFrom 3 n = replicate n 30000"
  by (induction n) (simp_all add: retryDelay_def nextIndex_def retryDelays_def maxRetryDelay_def)

lemma delaysFrom_0:
  "delaysFrom 0 n = take n [2000, 4000, 16000] @ replicate (n - 3) 30000"
proof -
  consider "n = 0" | "n = 1" | "n = 2" | m where "n = Suc (Suc (Suc m))"
    by (metis One_nat_def Suc_1 not0_implies_Suc)
  then show ?thesis
  proof cases
    case 4
    have "delaysFrom 0 n = 2000 # 4000 # 16000 # delaysFrom 3 m"
      unfolding 4 by (simp add: retryDelay_def nextIndex_def retryDelays_def numeral_3_eq_3)
    then show ?thesis by (simp add: delaysFrom_3 4)
  qed (simp_all add: retryDelay_def nextIndex_def retryDelays_def numeral_2_eq_2)
qed

lemma retryDelay_mono: "retryDelay idx \<le> retryDelay (nextIndex idx)"
proof -
  consider "idx = 0" | "idx = 1" | "idx = 2" | "3 \<le> idx" by linarith
  then show ?thesis
    by cases (simp_all add: retryDelay_def nextIndex_def retryDelays_def maxRetryDelay_def)
qed

lemma sorted_delaysFrom:
  "sorted (delaysFrom idx n) \<and> (\<forall>x \<in> set (delaysFrom idx n). retryDelay idx \<le> x)"
proof (induction n arbitrary: idx)
  case 0
  then show ?case by simp
next
  case (Suc n)
  have "\<forall>x \<in> set (delaysFrom (nextIndex idx) n). retryDelay idx \<le> x"
    using Suc [of "nextIndex idx"] retryDelay_mono [of idx] by fastforce
  then show ?case using Suc [of "nextIndex idx"] by simp
qed

section \<open>The tally loop\<close>

lemma tallyStep_fields:
  assumes "i < 32"
  shows "updates (tallyStep t i st) = updates st @ tallyPair t i"
    "tree (tallyStep t i st) =
       (tree st)(ProgramTally (i + 1) \<mapsto> BoolV (t ! i = of_char CHR ''1''),
                 PreviewTally (i + 1) \<mapsto> BoolV (t ! i = of_char CHR ''2''))"
  using assms by (simp_all add: tallyStep_eq update_def tallyPair_def)

lemma tallyLoop_updates:
  "updates (tallyLoop t i st)
     = updates st @ concat (map (tallyPair t) [i..<min (length t) 32])"
proof (induction t i st rule: tallyLoop.induct)
  case (1 t i st)
  show ?case
  proof (cases "i < length t \<and> i < 32")
    case True
    then have "[i..<min (length t) 32] = i # [Suc i..<min (length t) 32]"
      by (simp add: upt_conv_Cons)
    with True "1.IH" show ?thesis
      by (simp add: tallyLoop.simps [of t i st] tallyStep_fields)
  next
    case False
    then have "[i..<min (length t) 32] = []" by auto
    with False show ?thesis by (auto simp add: tallyLoop.simps [of t i st])
  qed
qed

lemma tallyLoop_tree:
  "tree (tallyLoop t i st) n =
     (case n of
        ProgramTally k \<Rightarrow>
          if i < k \<and> k \<le> min (length t) 32
          then Some (BoolV (t ! (k - 1) = of_char CHR ''1'')) else tree st n
      | PreviewTally k \<Rightarrow>
          if i < k \<and> k \<le> min (length t) 32
          then Some (BoolV (t ! (k - 1) = of_char CHR ''2'')) else tree st n
      | _ \<Rightarrow> tree st n)"
proof (induction t i st rule: tallyLoop.induct)
  case (1 t i st)
  show ?case
  proof (cases "i < length t \<and> i < 32")
    case True
    have "tree (tallyLoop t i st) n = tree (tallyLoop t (i + 1) (tallyStep t i st)) n"
      using True by (simp add: tallyLoop.simps [of t i st])
    also have "\<dots> = (case n of
        ProgramTally k \<Rightarrow>
          if i + 1 < k \<and> k \<le> min (length t) 32
          then Some (BoolV (t ! (k - 1) = of_char CHR ''1'')) else tree (tallyStep t i st) n
      | PreviewTally k \<Rightarrow>
          if i + 1 < k \<and> k \<le> min (length t) 32
          then Some (BoolV (t ! (k - 1) = of_char CHR ''2'')) else tree (tallyStep t i st) n
      | _ \<Rightarrow> tree (tallyStep t i st) n)"
      using "1.IH" True by simp
    finally show ?thesis
      using True by (cases n) (auto simp: tallyStep_fields)
  next
    case False
    then show ?thesis
      by (cases n) (auto simp add: tallyLoop.simps [of t i st])
  qed
qed

lemma received_tallyLoop: "received (tallyLoop t i st) = received st"
proof (induction t i st rule: tallyLoop.induct)
  case (1 t i st)
  show ?case
  proof (cases "i < length t \<and> i < 32")
    case True
    with "1.IH" show ?thesis
      by (simp add: tallyLoop.simps [of t i st] tallyStep_eq update_def)
  next
    case False
    then show ?thesis by (auto simp add: tallyLoop.simps [of t i st])
  qed
qed

section \<open>The line decoder\<close>

text \<open>Every handled line is logged, and the loop stops when no CRLF is left.\<close>

lemma received_actsLine: "received (actsLine line st) = received st"
  by (simp add: actsLine_def update_def Let_def)

lemma received_handleLine: "received (handleLine line st) = received st @ [line]"
  by (simp add: handleLine_def Let_def received_tallyLoop received_actsLine)

lemma onData_buffer:
  "received (onData c d st)
     = received (fst (processBuffer st (dataBuffer (socks st c) @ toString d)))"
  "dataBuffer (socks (onData c d st) c)
     = snd (processBuffer st (dataBuffer (socks st c) @ toString d))"
  by (simp_all add: onData_def split: prod.splits)

lemma processBuffer_no_line: "indexOf buf CRLF = None \<Longrightarrow> processBuffer st buf = (st, buf)"
  by (simp add: processBuffer.simps [of st buf])

lemma processBuffer_line:
  "indexOf buf CRLF = Some i \<Longrightarrow>
   processBuffer st buf = processBuffer (handleLine (trim (take i buf)) st) (drop (i + 2) buf)"
  by (simp add: processBuffer.simps [of st buf])

lemma buffer_keeps_partial_line:
  "indexOf (snd (processBuffer st buf)) CRLF = None"
proof (induction st buf rule: processBuffer.induct)
  case (1 st buf)
  show ?case
  proof (cases "indexOf buf CRLF")
    case None
    then show ?thesis by (simp add: processBuffer_no_line)
  next
    case (Some i)
    then show ?thesis using "1.IH" [OF Some] by (simp add: processBuffer_line [OF Some])
  qed
qed

text \<open>The first CRLF of a buffer is still the first when more text is appended, so
  the lines cut from a buffer do not depend on what follows them.\<close>

lemma indexOf_append:
  "indexOf s p = Some i \<Longrightarrow> indexOf (s @ t) p = Some i"
proof (induction s arbitrary: i)
  case Nil
  then have "p = []" "i = 0" by (simp_all split: if_splits)
  then show ?case by (cases t) (simp_all add: startsWith_def)
next
  case (Cons c cs)
  have len: "length p \<le> length (c # cs)"
    using indexOf_bound [OF Cons.prems] by simp
  then have "take (length p) ((c # cs) @ t) = take (length p) (c # cs)"
    by (simp only: take_append diff_is_0_eq' take_0 append_Nil2)
  then have sw: "startsWith ((c # cs) @ t) p = startsWith (c # cs) p"
    by (simp only: startsWith_def)
  show ?case
  proof (cases "startsWith (c # cs) p")
    case True
    with Cons.prems sw show ?thesis by simp
  next
    case False
    with Cons.prems obtain j where j: "indexOf cs p = Some j" "i = Suc j" by auto
    from Cons.IH [OF j(1)] have "indexOf (cs @ t) p = Some j" .
    with False sw j show ?thesis by simp
  qed
qed

lemma processBuffer_append:
  "processBuffer st (x @ y) = (case processBuffer st x of (st', r) \<Rightarrow> processBuffer st' (r @ y))"
proof (induction st x rule: processBuffer.induct)
  case (1 st buf)
  show ?case
  proof (cases "indexOf buf CRLF")
    case None
    then show ?thesis by (simp add: processBuffer_no_line)
  next
    case (Some i)
    have b: "i + 2 \<le> length buf"
      using indexOf_bound [OF Some] by (simp add: CRLF_def)
    have "processBuffer st (buf @ y)
        = processBuffer (handleLine (trim (take i (buf @ y))) st) (drop (i + 2) (buf @ y))"
      using processBuffer_line [OF indexOf_append [OF Some]] .
    also have "\<dots> = processBuffer (handleLine (trim (take i buf)) st) (drop (i + 2) buf @ y)"
      using b by simp
    also have "\<dots> = (case processBuffer (handleLine (trim (take i buf)) st) (drop (i + 2) buf)
                      of (st', r) \<Rightarrow> processBuffer st' (r @ y))"
      using "1.IH" [OF Some] .
    finally show ?thesis by (simp add: processBuffer_line [OF Some])
  qed
qed

text \<open>Handling lines and storing a buffer commute: no line handler reads or writes a
  socket's buffer.\<close>

lemma update_setBuffer: "update t v (setBuffer c r st) = setBuffer c r (update t v st)"
  by (cases t) (simp_all add: update_def setBuffer_def)

lemma tallyStep_setBuffer: "tallyStep t i (setBuffer c r st) = setBuffer c r (tallyStep t i st)"
  by (simp add: tallyStep_def Let_def update_setBuffer)

lemma tallyLoop_setBuffer: "tallyLoop t i (setBuffer c r st) = setBuffer c r (tallyLoop t i st)"
proof (induction t i st rule: tallyLoop.induct)
  case (1 t i st)
  show ?case
  proof (cases "i < length t \<and> i < 32")
    case True
    with "1.IH" show ?thesis
      by (simp add: tallyLoop.simps [of t i] tallyStep_setBuffer)
  next
    case False
    then show ?thesis by (auto simp add: tallyLoop.simps [of t i])
  qed
qed

lemma handleLine_setBuffer: "handleLine l (setBuffer c r st) = setBuffer c r (handleLine l st)"
proof -
  have "(setBuffer c r st)\<lparr>received := received (setBuffer c r st) @ [l]\<rparr>
      = setBuffer c r (st\<lparr>received := received st @ [l]\<rparr>)"
    by (simp add: setBuffer_def)
  then show ?thesis
    by (simp add: handleLine_def Let_def tallyLoop_setBuffer actsLine_def update_setBuffer)
qed

lemma processBuffer_setBuffer:
  "processBuffer (setBuffer c r st) buf
     = (case processBuffer st buf of (st', r') \<Rightarrow> (setBuffer c r st', r'))"
proof (induction st buf rule: processBuffer.induct)
  case (1 st buf)
  show ?case
  proof (cases "indexOf buf CRLF")
    case None
    then show ?thesis by (simp add: processBuffer_no_line)
  next
    case (Some i)
    then show ?thesis
      using "1.IH" [OF Some]
      by (simp add: processBuffer_line [OF Some] handleLine_setBuffer)
  qed
qed

lemma onData_setBuffer:
  "onData c d st
     = (case processBuffer st (dataBuffer (socks st c) @ toString d)
        of (st', r) \<Rightarrow> setBuffer c r st')"
  by (simp add: onData_def setBuffer_def)

lemma setBuffer_twice: "setBuffer c r (setBuffer c r' st) = setBuffer c r st"
  by (simp add: setBuffer_def)

lemma dataBuffer_setBuffer: "dataBuffer (socks (setBuffer c r st) c) = r"
  by (simp add: setBuffer_def)

text \<open>Two chunks whose decoded texts add up to the decoded text of their
  concatenation are handled like that concatenation. Chunks of ASCII bytes are such.\<close>

lemma onData_text_append:
  assumes "toString (d1 @ d2) = toString d1 @ toString d2"
  shows "onData c d2 (onData c d1 st) = onData c (d1 @ d2) st"
proof -
  obtain s1 r1 where p1: "processBuffer st (dataBuffer (socks st c) @ toString d1) = (s1, r1)"
    by (cases "processBuffer st (dataBuffer (socks st c) @ toString d1)")
  obtain s2 r2 where p2: "processBuffer s1 (r1 @ toString d2) = (s2, r2)"
    by (cases "processBuffer s1 (r1 @ toString d2)")
  have a: "onData c d1 st = setBuffer c r1 s1"
    by (simp add: onData_setBuffer p1)
  have "onData c d2 (setBuffer c r1 s1) = setBuffer c r2 s2"
    by (simp add: onData_setBuffer dataBuffer_setBuffer processBuffer_setBuffer p2
        setBuffer_twice)
  moreover have "onData c (d1 @ d2) st = setBuffer c r2 s2"
    using processBuffer_append [of st "dataBuffer (socks st c) @ toString d1" "toString d2"]
    by (simp add: onData_setBuffer assms p1 p2)
  ultimately show ?thesis by (simp add: a)
qed

lemma utf8_decode_ascii:
  "\<forall>b \<in> set bs. b \<le> 0x7F \<Longrightarrow> utf8_decode 0 0 0x80 0xBF bs = bs"
  by (induction bs) simp_all

lemma toString_ascii:
  assumes "\<forall>b \<in> set d. b \<le> 0x7F"
  shows "toString d = map ucast d"
proof -
  have "\<forall>b \<in> set (map unat d). b \<le> 0x7F"
    using assms by (auto simp: word_le_nat_alt)
  then have "utf8_decode 0 0 0x80 0xBF (map unat d) = map unat d"
    by (rule utf8_decode_ascii)
  moreover have "utf16_units (unat b) = [ucast b]" for b :: byte
  proof -
    have "unat b < 2 ^ 8" using unsigned_less [of b, where 'a = nat] by simp
    then have "unat b < 0x10000" by simp
    then show ?thesis by (simp add: utf16_units_def)
  qed
  then have "concat (map utf16_units (map unat d)) = map ucast d"
    by (induction d) simp_all
  ultimately show ?thesis
    by (simp add: toString_def)
qed

lemma onData_ascii_chunks:
  assumes "\<forall>b \<in> set (d1 @ d2). b \<le> 0x7F"
  shows "onData c d2 (onData c d1 st) = onData c (d1 @ d2) st"
proof -
  have "toString (d1 @ d2) = toString d1 @ toString d2"
    using assms by (simp add: toString_ascii)
  then show ?thesis by (rule onData_text_append)
qed

lemma toString_whole: "toString [0xC3, 0xA9, 0x0D, 0x0A] = [0xE9, 0x0D, 0x0A]"
  by (simp add: toString_def utf16_units_def)

lemma toString_parts:
  "toString [0xC3] = [0xFFFD]" "toString [0xA9, 0x0D, 0x0A] = [0xFFFD, 0x0D, 0x0A]"
  by (simp_all add: toString_def utf16_units_def)

section \<open>C1: the connected flag\<close>

text \<open>
  Claim C1 as written fails: the flag is not true exactly when a connection is active.
  A set-value request on the flag makes it true with no connection at all; and after an
  error other than a refused connection the \<^verbatim>\<open>'error'\<close> handler has cleared the
  stored connection while the flag stays true until \<^verbatim>\<open>'close'\<close> arrives.
\<close>

theorem connected_flag_counterexample:
  "map_option connectedFlag (run [SetValue VmixConnected (BoolV True)] startup) = Some (Some (BoolV True))
   \<and> map_option vmixConnection (run [SetValue VmixConnected (BoolV True)] startup) = Some None
   \<and> map_option connectedFlag (run [Connect 0, Error 0 (js ''ECONNRESET'')] startup) = Some (Some (BoolV True))
   \<and> map_option vmixConnection (run [Connect 0, Error 0 (js ''ECONNRESET'')] startup) = Some None"
  by (simp add: startup_def connectToVMix_def onConnect_def onError_def onSetValue_def
      s_update_def update_def connectedFlag_def js_def)

text \<open>
  Claim C1, amended. In every state the bridge reaches without a set-value request on
  the flag itself: the flag is a boolean; while a connection is stored the flag is true
  and both subscriptions have been written to that connection; the flag is true only
  while a connection is stored or a failed socket still awaits its \<^verbatim>\<open>'close'\<close>; the
  flag is false as long as no connect callback has run; and it is false, with no
  connection stored, throughout every back-off window (the guard flag is set, a timer
  is pending).
\<close>

theorem connected_flag_tracks_connection:
  assumes "run es startup = Some st" and "\<not> list_ex setsFlag es"
  shows "(connectedFlag st = Some (BoolV True) \<or> connectedFlag st = Some (BoolV False))
    \<and> (\<forall>c. vmixConnection st = Some c \<longrightarrow>
           connectedFlag st = Some (BoolV True) \<and> subscribed st c)
    \<and> (connectedFlag st = Some (BoolV True) \<longrightarrow>
           vmixConnection st \<noteq> None \<or> (\<exists>c<nsocks st. phase st c = Errored))
    \<and> (\<not> list_ex isConnect es \<longrightarrow> connectedFlag st = Some (BoolV False))
    \<and> (reconnectScheduled st \<or> timers st \<noteq> [] \<longrightarrow>
           connectedFlag st = Some (BoolV False) \<and> vmixConnection st = None)"
proof -
  have f: "flagInv st"
    using flagInv_run [OF flagInv_startup assms] .
  have t: "timerInv st"
    using timerInv_run [OF timerInv_startup assms(1)] .
  have s: "connectedFlag startup = Some (BoolV False)"
    by (simp add: startup_def connectToVMix_def connectedFlag_def initialTree_def)
  have "\<not> list_ex isConnect es \<longrightarrow> connectedFlag st = Some (BoolV False)"
    using flag_false_run [OF s assms] by blast
  moreover have "reconnectScheduled st \<or> timers st \<noteq> [] \<longrightarrow>
      connectedFlag st = Some (BoolV False) \<and> vmixConnection st = None"
    using f t by (auto simp: flagInv_def timerInv_def)
  ultimately show ?thesis
    using f unfolding flagInv_def by blast
qed

theorem connected_flag_witness:
  "run [Connect 0] startup \<noteq> None \<and> \<not> list_ex setsFlag [Connect 0]
   \<and> vmixConnection (the (run [Connect 0] startup)) = Some 0
   \<and> connectedFlag (the (run [Connect 0] startup)) = Some (BoolV True)
   \<and> subscribed (the (run [Connect 0] startup)) 0"
proof -
  define S where "S = the (run [Connect 0] startup)"
  have r: "run [Connect 0] startup = Some S"
    unfolding S_def by (simp only: after_connect_simps(1) option.sel)
  have n: "\<not> list_ex setsFlag [Connect 0]"
    by (simp add: setsFlag_def)
  have v: "vmixConnection S = Some 0"
    unfolding S_def
    by (simp only: after_connect_simps(1) option.sel) (simp add: onConnect_def update_def Let_def)
  have "connectedFlag S = Some (BoolV True) \<and> subscribed S 0"
    using connected_flag_tracks_connection [OF r n] v by blast
  moreover have "run [Connect 0] startup \<noteq> None"
    unfolding r by simp
  ultimately show ?thesis
    using n v unfolding S_def [symmetric] by blast
qed

section \<open>C2: back-off delays\<close>

text \<open>
  Claim C2. Consecutive failed attempts from start-up, whatever their error codes, are
  retried after 2000, 4000 and 16000 milliseconds and after 30000 milliseconds from the
  fourth failure on, and these delays never decrease. Once a connection has succeeded
  its index is 0, and however it is then lost, that failure and the failed attempts
  after it are again retried after 2000, 4000, 16000 and then 30000 milliseconds. The
  connect callback sets the index of its socket to 0.
\<close>

theorem retry_delays:
  "(\<exists>st. run (attempts 0 codes) startup = Some st
       \<and> timeouts st = take (length codes) [2000, 4000, 16000]
                         @ replicate (length codes - 3) 30000
       \<and> sorted (timeouts st))
   \<and> (run es startup = Some st0 \<and> c < nsocks st0 \<and> phase st0 c = Open \<longrightarrow>
        delayIndex (socks st0 c) = 0
        \<and> (\<exists>st1. run (failureEvents c fl @ Timeout 0 # attempts (Suc c) codes) st0 = Some st1
              \<and> timeouts st1 = timeouts st0 @ take (Suc (length codes)) [2000, 4000, 16000]
                                  @ replicate (Suc (length codes) - 3) 30000))
   \<and> delayIndex (socks (onConnect c st2) c) = 0"
proof (intro conjI impI)
  from attempts_run [OF timerInv_startup, of 0 codes]
  obtain st where st: "run (attempts 0 codes) startup = Some st"
    "timeouts st = delaysFrom 0 (length codes)"
    by (auto simp: startup_simps)
  have "sorted (timeouts st)" using sorted_delaysFrom [of 0 "length codes"] st(2) by simp
  then show "\<exists>st. run (attempts 0 codes) startup = Some st
       \<and> timeouts st = take (length codes) [2000, 4000, 16000]
                         @ replicate (length codes - 3) 30000
       \<and> sorted (timeouts st)"
    using st delaysFrom_0 [of "length codes"] by auto
next
  assume a: "run es startup = Some st0 \<and> c < nsocks st0 \<and> phase st0 c = Open"
  then have inv: "timerInv st0" using timerInv_run [OF timerInv_startup] by blast
  from a inv show z: "delayIndex (socks st0 c) = 0" by (auto simp: timerInv_def)
  have new: "nsocks st0 = Suc c" using live_is_newest [OF inv, of c] a by simp
  have ns: "\<not> reconnectScheduled st0" using connecting_not_scheduled [OF inv new] a by simp
  obtain s1 where f: "run (failureEvents c fl) st0 = Some s1"
    using failure_enabled [of c st0 fl] a by auto
  from failure_then_timeout [OF inv f ns]
  obtain s2 where s2: "deliver (Timeout 0) s1 = Some s2" "timerInv s2"
    "nsocks s2 = Suc (Suc c)" "phase s2 (Suc c) = Connecting"
    "delayIndex (socks s2 (Suc c)) = nextIndex (delayIndex (socks st0 c))"
    "timeouts s2 = timeouts st0 @ [retryDelay (delayIndex (socks st0 c))]"
    by blast
  from attempts_run [OF s2(2) s2(3) s2(4), of codes]
  obtain st1 where st1: "run (attempts (Suc c) codes) s2 = Some st1"
    "timeouts st1 = timeouts s2 @ delaysFrom (delayIndex (socks s2 (Suc c))) (length codes)"
    by blast
  have r: "run (failureEvents c fl @ Timeout 0 # attempts (Suc c) codes) st0 = Some st1"
    using f s2(1) st1(1) by (simp only: run_append option.case run.simps)
  have "timeouts st1 = timeouts st0 @ delaysFrom 0 (Suc (length codes))"
    using st1(2) s2(5) s2(6) z by simp
  then have "timeouts st1 = timeouts st0 @ take (Suc (length codes)) [2000, 4000, 16000]
                                  @ replicate (Suc (length codes) - 3) 30000"
    by (simp only: delaysFrom_0)
  with r show "\<exists>st1. run (failureEvents c fl @ Timeout 0 # attempts (Suc c) codes) st0 = Some st1
              \<and> timeouts st1 = timeouts st0 @ take (Suc (length codes)) [2000, 4000, 16000]
                                  @ replicate (Suc (length codes) - 3) 30000"
    by blast
next
  show "delayIndex (socks (onConnect c st2) c) = 0"
    by (simp add: onConnect_def update_def Let_def)
qed

theorem retry_delays_witness:
  "map_option timeouts
     (run (attempts 0 [js ''ECONNREFUSED'', js ''ETIMEDOUT'', js ''ECONNREFUSED'',
                       js ''EHOSTUNREACH'', js ''ECONNREFUSED'']) startup)
     = Some [2000, 4000, 16000, 30000, 30000]
   \<and> run [Connect 0] startup \<noteq> None
   \<and> 0 < nsocks (the (run [Connect 0] startup))
   \<and> phase (the (run [Connect 0] startup)) 0 = Open
   \<and> map_option timeouts
       (run (failureEvents 0 JustClosed @ Timeout 0 #
             attempts (Suc 0) [js ''ECONNREFUSED'', js ''ETIMEDOUT'', js ''ECONNREFUSED'',
                               js ''EHOSTUNREACH'', js ''ECONNREFUSED''])
          (the (run [Connect 0] startup)))
       = Some [2000, 4000, 16000, 30000, 30000, 30000]"
proof -
  define codes where "codes = [js ''ECONNREFUSED'', js ''ETIMEDOUT'', js ''ECONNREFUSED'',
                       js ''EHOSTUNREACH'', js ''ECONNREFUSED'']"
  define S where "S = the (run [Connect 0] startup)"
  have len: "length codes = 5" by (simp add: codes_def)
  have r: "run [Connect 0] startup = Some S"
    unfolding S_def by (simp only: after_connect_simps option.sel)
  have p: "0 < nsocks S" "phase S 0 = Open" "timeouts S = []"
    unfolding S_def after_connect_simps(1) option.sel
    by (simp_all add: after_connect_simps)
  note t = retry_delays [where codes = codes and es = "[Connect 0]" and ?st0.0 = S and c = 0
      and fl = JustClosed]
  from t obtain st where a: "run (attempts 0 codes) startup = Some st"
    "timeouts st = take (length codes) [2000, 4000, 16000] @ replicate (length codes - 3) 30000"
    by blast
  have A: "map_option timeouts (run (attempts 0 codes) startup)
      = Some [2000, 4000, 16000, 30000, 30000]"
    using a len by (simp add: numeral_2_eq_2)
  from t r p obtain st1 where b:
    "run (failureEvents 0 JustClosed @ Timeout 0 # attempts (Suc 0) codes) S = Some st1"
    "timeouts st1 = timeouts S @ take (Suc (length codes)) [2000, 4000, 16000]
        @ replicate (Suc (length codes) - 3) 30000"
    by blast
  have B: "map_option timeouts
       (run (failureEvents 0 JustClosed @ Timeout 0 # attempts (Suc 0) codes) S)
       = Some [2000, 4000, 16000, 30000, 30000, 30000]"
    using b len p by (simp add: numeral_3_eq_3)
  have "run [Connect 0] startup \<noteq> None" unfolding r by simp
  with A B p show ?thesis
    unfolding codes_def [symmetric] S_def [symmetric] by blast
qed

section \<open>C3: invocations\<close>

lemma mapped_command_nonempty:
  "map_of functionCommandMapping identifier = Some (Str cmd) \<Longrightarrow> cmd \<noteq> []"
  by (auto simp: functionCommandMapping_def js_def split: if_splits)

lemma invocation_by_design:
  "(map_of functionCommandMapping identifier = Some (Str cmd)
      \<and> vmixConnection st = Some c \<and> writable st c \<longrightarrow>
        onInvocation identifier iid st
          = (\<lparr>id_res = iid, success = True, error = None\<rparr>,
             st\<lparr>written := written st @ [(c, cmd @ CRLF)]\<rparr>))
   \<and> (map_of functionCommandMapping identifier = Some (Str cmd)
      \<and> (vmixConnection st = None \<or> (\<exists>k. vmixConnection st = Some k \<and> \<not> writable st k)) \<longrightarrow>
        onInvocation identifier iid st
          = (\<lparr>id_res = iid, success = False,
              error = Some (js ''vMix connection not available.'')\<rparr>, st))
   \<and> (map_of functionCommandMapping identifier = None
      \<and> identifier \<notin> set objectPrototypeKeys \<longrightarrow>
        onInvocation identifier iid st = (\<lparr>id_res = iid, success = True, error = None\<rparr>, st))
   \<and> map_of functionCommandMapping (js ''Stinger 2'') = Some (Str (js ''FUNCTION STINGER2''))"
proof (intro conjI impI)
  assume a: "map_of functionCommandMapping identifier = Some (Str cmd)
      \<and> vmixConnection st = Some c \<and> writable st c"
  then have "cmd \<noteq> []" using mapped_command_nonempty by blast
  with a show "onInvocation identifier iid st
          = (\<lparr>id_res = iid, success = True, error = None\<rparr>,
             st\<lparr>written := written st @ [(c, cmd @ CRLF)]\<rparr>)"
    by (simp add: onInvocation_def lookup_def)
next
  assume a: "map_of functionCommandMapping identifier = Some (Str cmd)
      \<and> (vmixConnection st = None \<or> (\<exists>k. vmixConnection st = Some k \<and> \<not> writable st k))"
  then have "cmd \<noteq> []" using mapped_command_nonempty by blast
  with a show "onInvocation identifier iid st
          = (\<lparr>id_res = iid, success = False,
              error = Some (js ''vMix connection not available.'')\<rparr>, st)"
    by (auto simp: onInvocation_def lookup_def)
next
  assume "map_of functionCommandMapping identifier = None
      \<and> identifier \<notin> set objectPrototypeKeys"
  then show "onInvocation identifier iid st
      = (\<lparr>id_res = iid, success = True, error = None\<rparr>, st)"
    by (simp add: onInvocation_def lookup_def)
next
  show "map_of functionCommandMapping (js ''Stinger 2'') = Some (Str (js ''FUNCTION STINGER2''))"
    by (simp add: functionCommandMapping_def js_def)
qed

lemma functions_of_the_tree:
  "set (map (fst \<circ> snd) functionsTree) \<inter> set objectPrototypeKeys = {}"
  "set (map (fst \<circ> snd) functionsTree) = set (map fst functionCommandMapping)"
  by (simp_all add: functionsTree_def functionCommandMapping_def objectPrototypeKeys_def js_def)

lemma listed_is_command:
  "map_of functionCommandMapping identifier = None
   \<or> (\<exists>cmd. map_of functionCommandMapping identifier = Some (Str cmd))"
  by (simp add: functionCommandMapping_def)

text \<open>
  Claim C3. The handler is given a function of the tree; each of the nine is listed in
  the command mapping and none bears a name that objects inherit. For every identifier,
  invocation id and state: a listed identifier (its entry is a command string) with a
  stored, writable connection writes exactly its command followed by CRLF, once, to that
  connection, and reports success (\<^verbatim>\<open>Stinger 2\<close> is listed with
  \<^verbatim>\<open>FUNCTION STINGER2\<close>); a listed identifier with no stored connection, or one
  that is not writable, reports the failure "vMix connection not available." and
  changes nothing; and an identifier that is not listed, and not a name that objects
  inherit, reports success and changes nothing.
\<close>

theorem invocation_dispatch:
  "(map_of functionCommandMapping identifier = None
      \<and> identifier \<notin> set objectPrototypeKeys \<longrightarrow>
        onInvocation identifier iid st = (\<lparr>id_res = iid, success = True, error = None\<rparr>, st))
   \<and> (map_of functionCommandMapping identifier = Some (Str cmd)
      \<and> vmixConnection st = Some c \<and> writable st c \<longrightarrow>
        onInvocation identifier iid st
          = (\<lparr>id_res = iid, success = True, error = None\<rparr>,
             st\<lparr>written := written st @ [(c, cmd @ CRLF)]\<rparr>))
   \<and> (map_of functionCommandMapping identifier = Some (Str cmd)
      \<and> (vmixConnection st = None \<or> (\<exists>k. vmixConnection st = Some k \<and> \<not> writable st k)) \<longrightarrow>
        onInvocation identifier iid st
          = (\<lparr>id_res = iid, success = False,
              error = Some (js ''vMix connection not available.'')\<rparr>, st))
   \<and> (map_of functionCommandMapping identifier = None
      \<or> (\<exists>cmd'. map_of functionCommandMapping identifier = Some (Str cmd')))
   \<and> map_of functionCommandMapping (js ''Stinger 2'') = Some (Str (js ''FUNCTION STINGER2''))
   \<and> set (map (fst \<circ> snd) functionsTree) \<inter> set objectPrototypeKeys = {}
   \<and> set (map (fst \<circ> snd) functionsTree) = set (map fst functionCommandMapping)"
  using invocation_by_design listed_is_command functions_of_the_tree
  by blast

theorem invocation_dispatch_witness:
  "onInvocation (js ''No such function'') 7 startup
     = (\<lparr>id_res = 7, success = True, error = None\<rparr>, startup)
   \<and> onInvocation (js ''Stinger 2'') 8 startup
     = (\<lparr>id_res = 8, success = False,
         error = Some (js ''vMix connection not available.'')\<rparr>, startup)
   \<and> run [Connect 0] startup \<noteq> None
   \<and> written (snd (onInvocation (js ''Stinger 2'') 9 (the (run [Connect 0] startup))))
     = written (the (run [Connect 0] startup)) @ [(0, js ''FUNCTION STINGER2'' @ CRLF)]
   \<and> success (fst (onInvocation (js ''Stinger 2'') 9 (the (run [Connect 0] startup))))"
proof -
  define S where "S = the (run [Connect 0] startup)"
  have r: "run [Connect 0] startup = Some S"
    unfolding S_def by (simp only: after_connect_simps(1) option.sel)
  have S: "vmixConnection S = Some 0" "writable S 0"
    unfolding S_def after_connect_simps(1) option.sel
    by (simp_all add: after_connect_simps writable_def)
  have a: "map_of functionCommandMapping (js ''No such function'') = None"
    "js ''No such function'' \<notin> set objectPrototypeKeys"
    by (simp_all add: functionCommandMapping_def objectPrototypeKeys_def js_def)
  have m: "map_of functionCommandMapping (js ''Stinger 2'') = Some (Str (js ''FUNCTION STINGER2''))"
    by (simp add: functionCommandMapping_def js_def)
  have "onInvocation (js ''No such function'') 7 startup
     = (\<lparr>id_res = 7, success = True, error = None\<rparr>, startup)"
    using invocation_dispatch [of "js ''No such function''" 7 startup] a
    by blast
  moreover have "onInvocation (js ''Stinger 2'') 8 startup
     = (\<lparr>id_res = 8, success = False,
         error = Some (js ''vMix connection not available.'')\<rparr>, startup)"
    using invocation_dispatch [of "js ''Stinger 2''" 8 startup "js ''FUNCTION STINGER2''"] m
      startup_simps(1)
    by blast
  moreover have "onInvocation (js ''Stinger 2'') 9 S
     = (\<lparr>id_res = 9, success = True, error = None\<rparr>,
        S\<lparr>written := written S @ [(0, js ''FUNCTION STINGER2'' @ CRLF)]\<rparr>)"
    using invocation_dispatch [of "js ''Stinger 2''" 9 S "js ''FUNCTION STINGER2''" 0] m S
    by blast
  moreover have "run [Connect 0] startup \<noteq> None" unfolding r by simp
  ultimately show ?thesis
    unfolding S_def [symmetric] by simp
qed

lemma stinger2_example:
  "onInvocation (js ''Stinger 2'') iid startup
     = (\<lparr>id_res = iid, success = False,
         error = Some (js ''vMix connection not available.'')\<rparr>, startup)"
  "map_option (\<lambda>st. written (snd (onInvocation (js ''Stinger 2'') iid st)))
       (run [Connect 0] startup)
     = Some [(0, js ''SUBSCRIBE TALLY'' @ CRLF), (0, js ''SUBSCRIBE ACTS'' @ CRLF),
             (0, js ''FUNCTION STINGER2'' @ CRLF)]"
  by (simp_all add: onInvocation_def lookup_def functionCommandMapping_def
      js_def startup_simps Let_def onConnect_def update_def writable_def)

text \<open>
  The lookup also finds the names that every object inherits, which the mapping does
  not list; no function of the tree bears one (\<open>functions_of_the_tree\<close>), so no
  invocation arrives with one.
\<close>

lemma inherited_identifier_off_tree:
  "onInvocation (js ''constructor'') iid startup
     = (\<lparr>id_res = iid, success = False,
         error = Some (js ''vMix connection not available.'')\<rparr>, startup)
   \<and> map_option (\<lambda>st. written (snd (onInvocation (js ''constructor'') iid st)))
       (run [Connect 0] startup)
     = Some [(0, js ''SUBSCRIBE TALLY'' @ CRLF), (0, js ''SUBSCRIBE ACTS'' @ CRLF),
             (0, js ''function Object() { [native code] }'' @ CRLF)]"
  by (simp add: onInvocation_def lookup_def functionCommandMapping_def
      objectPrototypeKeys_def js_def startup_simps Let_def onConnect_def update_def
      writable_def)

section \<open>C4: tally lines\<close>

text \<open>
  Claim C4. For every line that starts with \<^verbatim>\<open>TALLY OK\<close>, with the tally string
  what follows its first nine characters: the handler calls \<^verbatim>\<open>s.update\<close> exactly
  for the indices below the length of the tally string and below 32, in order, first
  for the Program and then for the Preview parameter of input \<open>i + 1\<close>; afterwards
  Program is (character = '1') and Preview is (character = '2'), so '1' gives
  (true, false), '2' gives (false, true) and any other character (false, false); the
  tally parameters of every other input, those beyond position 32 and beyond the length
  of the string among them, and every parameter that is no tally keep their values.
\<close>

theorem tally_line_updates:
  assumes "startsWith line (js ''TALLY OK'')"
  shows "updates (handleLine line st)
       = updates st @ concat (map (tallyPair (drop 9 line)) [0..<min (length (drop 9 line)) 32])
    \<and> (\<forall>i. i < length (drop 9 line) \<and> i < 32 \<longrightarrow>
          tree (handleLine line st) (ProgramTally (i + 1))
            = Some (BoolV (drop 9 line ! i = of_char CHR ''1''))
        \<and> tree (handleLine line st) (PreviewTally (i + 1))
            = Some (BoolV (drop 9 line ! i = of_char CHR ''2'')))
    \<and> (\<forall>i. i < length (drop 9 line) \<and> i < 32 \<longrightarrow>
          (tree (handleLine line st) (ProgramTally (i + 1)),
           tree (handleLine line st) (PreviewTally (i + 1)))
          = (if drop 9 line ! i = of_char CHR ''1'' then (Some (BoolV True), Some (BoolV False))
             else if drop 9 line ! i = of_char CHR ''2''
               then (Some (BoolV False), Some (BoolV True))
             else (Some (BoolV False), Some (BoolV False))))
    \<and> (\<forall>k. \<not> (1 \<le> k \<and> k \<le> length (drop 9 line) \<and> k \<le> 32) \<longrightarrow>
          tree (handleLine line st) (ProgramTally k) = tree st (ProgramTally k)
        \<and> tree (handleLine line st) (PreviewTally k) = tree st (PreviewTally k))
    \<and> (\<forall>n. (\<forall>k. n \<noteq> ProgramTally k \<and> n \<noteq> PreviewTally k) \<longrightarrow>
          tree (handleLine line st) n = tree st n)"
proof -
  define t where "t = drop 9 line"
  have h: "handleLine line st = tallyLoop t 0 (st\<lparr>received := received st @ [line]\<rparr>)"
    using assms by (simp add: handleLine_def t_def)
  have a: "updates (handleLine line st)
       = updates st @ concat (map (tallyPair t) [0..<min (length t) 32])"
    by (simp add: h tallyLoop_updates)
  have b: "tree (handleLine line st) (ProgramTally (i + 1)) = Some (BoolV (t ! i = of_char CHR ''1''))
      \<and> tree (handleLine line st) (PreviewTally (i + 1)) = Some (BoolV (t ! i = of_char CHR ''2''))"
    if "i < length t \<and> i < 32" for i
    using that by (simp add: h tallyLoop_tree)
  have c: "(tree (handleLine line st) (ProgramTally (i + 1)),
           tree (handleLine line st) (PreviewTally (i + 1)))
          = (if t ! i = of_char CHR ''1'' then (Some (BoolV True), Some (BoolV False))
             else if t ! i = of_char CHR ''2''
               then (Some (BoolV False), Some (BoolV True))
             else (Some (BoolV False), Some (BoolV False)))"
    if "i < length t \<and> i < 32" for i
    using b [OF that] by simp
  have d: "tree (handleLine line st) (ProgramTally k) = tree st (ProgramTally k)
        \<and> tree (handleLine line st) (PreviewTally k) = tree st (PreviewTally k)"
    if "\<not> (1 \<le> k \<and> k \<le> length t \<and> k \<le> 32)" for k
    using that by (auto simp add: h tallyLoop_tree)
  have e: "tree (handleLine line st) n = tree st n"
    if "\<forall>k. n \<noteq> ProgramTally k \<and> n \<noteq> PreviewTally k" for n
    using that by (cases n) (auto simp add: h tallyLoop_tree)
  show ?thesis
    using a b c d e unfolding t_def by blast
qed

theorem tally_line_updates_witness:
  "startsWith (js ''TALLY OK 0121'') (js ''TALLY OK'')
   \<and> tree (handleLine (js ''TALLY OK 0121'') startup) (ProgramTally 2) = Some (BoolV True)
   \<and> tree (handleLine (js ''TALLY OK 0121'') startup) (PreviewTally 2) = Some (BoolV False)
   \<and> tree (handleLine (js ''TALLY OK 0121'') startup) (PreviewTally 3) = Some (BoolV True)
   \<and> tree (handleLine (js ''TALLY OK 0121'') startup) (ProgramTally 5) = Some (BoolV False)
   \<and> length (updates (handleLine (js ''TALLY OK 0121'') startup)) = 8"
proof -
  let ?H = "handleLine (js ''TALLY OK 0121'') startup"
  let ?t = "[0x30, 0x31, 0x32, 0x31] :: jsstring"
  have p: "startsWith (js ''TALLY OK 0121'') (js ''TALLY OK'')"
    by (simp add: startsWith_def js_def)
  have t: "drop 9 (js ''TALLY OK 0121'') = ?t"
    by (simp add: js_def)
  have l: "[0..<min (length ?t) 32] = [0, 1, 2, 3]"
    by (simp add: upt_rec)
  note w = tally_line_updates [OF p, of startup, unfolded t]
  from w have u: "updates ?H = updates startup @ concat (map (tallyPair ?t) [0..<min (length ?t) 32])"
    by (rule conjunct1)
  from w have b: "\<forall>i. i < length ?t \<and> i < 32 \<longrightarrow>
          tree ?H (ProgramTally (i + 1)) = Some (BoolV (?t ! i = of_char CHR ''1''))
        \<and> tree ?H (PreviewTally (i + 1)) = Some (BoolV (?t ! i = of_char CHR ''2''))"
    by (rule conjunct2 [THEN conjunct1])
  from w have d: "\<forall>k. \<not> (1 \<le> k \<and> k \<le> length ?t \<and> k \<le> 32) \<longrightarrow>
          tree ?H (ProgramTally k) = tree startup (ProgramTally k)
        \<and> tree ?H (PreviewTally k) = tree startup (PreviewTally k)"
    by (rule conjunct2 [THEN conjunct2, THEN conjunct2, THEN conjunct1])
  have "tree ?H (ProgramTally 2) = Some (BoolV True)"
    "tree ?H (PreviewTally 2) = Some (BoolV False)"
    using b [rule_format, of 1] by (simp_all add: numeral_2_eq_2)
  moreover have "tree ?H (PreviewTally 3) = Some (BoolV True)"
    using b [rule_format, of 2] by (simp add: numeral_3_eq_3)
  moreover have "tree ?H (ProgramTally 5) = Some (BoolV False)"
    using d [rule_format, of 5] by (simp add: startup_simps initialTree_def)
  moreover have "length (updates ?H) = 8"
    unfolding u l by (simp add: startup_simps tallyPair_def)
  ultimately show ?thesis
    using p by simp
qed

section \<open>C5: activity lines\<close>

text \<open>
  Claim C5 fails on a category that the table does not list but every object inherits:
  \<^verbatim>\<open>actsStatusNodes\<close> is an object literal, so
  \<^verbatim>\<open>actsStatusNodes["toString"]\<close> is the inherited function and not
  \<^verbatim>\<open>undefined\<close>. On the line \<^verbatim>\<open>ACTS OK toString 1\<close> the handler takes the branch
  of a known category and calls \<^verbatim>\<open>s.update\<close>, with that function as its target.
\<close>

theorem acts_inherited_category:
  "updates (handleLine (js ''ACTS OK toString 1'') st)
     = updates st @ [(Inherited (js ''toString''), BoolV True)]"
  by (simp add: handleLine_def actsLine_def startsWith_def js_def lookup_def
      actsStatusNodes_def objectPrototypeKeys_def update_def Let_def)

text \<open>
  The rest of the claim holds. A line of fewer than four tokens updates nothing; with
  four or more, a third token that the table lists updates its parameter to
  (fourth token = "1"), and one that is neither listed nor inherited updates nothing.
\<close>

lemma acts_not_tally:
  "startsWith line (js ''ACTS OK'') \<Longrightarrow> \<not> startsWith line (js ''TALLY OK'')"
  by (cases line) (auto simp: startsWith_def js_def)

lemma acts_line_by_design:
  assumes "startsWith line (js ''ACTS OK'')"
  shows "(length (split_js line (of_char CHR '' '')) < 4 \<longrightarrow>
            handleLine line st = st\<lparr>received := received st @ [line]\<rparr>)
    \<and> (4 \<le> length (split_js line (of_char CHR '' ''))
        \<and> map_of actsStatusNodes (split_js line (of_char CHR '' '') ! 2) = Some (Node n) \<longrightarrow>
            handleLine line st
              = update (Node n) (BoolV (split_js line (of_char CHR '' '') ! 3 = js ''1''))
                  (st\<lparr>received := received st @ [line]\<rparr>))
    \<and> (4 \<le> length (split_js line (of_char CHR '' ''))
        \<and> map_of actsStatusNodes (split_js line (of_char CHR '' '') ! 2) = None
        \<and> split_js line (of_char CHR '' '') ! 2 \<notin> set objectPrototypeKeys \<longrightarrow>
            handleLine line st = st\<lparr>received := received st @ [line]\<rparr>)"
  using assms acts_not_tally [OF assms]
  by (simp add: handleLine_def actsLine_def lookup_def Let_def)

lemma acts_examples:
  "updates (handleLine (js ''ACTS OK Recording 1'') st)
     = updates st @ [(Node (ActsStatus Recording), BoolV True)]"
  "updates (handleLine (js ''ACTS OK MultiCorder 0'') st)
     = updates st @ [(Node (ActsStatus MultiCorder), BoolV False)]"
  "updates (handleLine (js ''ACTS OK Streaming 1'') st)
     = updates st @ [(Node (ActsStatus Streaming), BoolV True)]"
  "updates (handleLine (js ''ACTS OK Recording'') st) = updates st"
  "updates (handleLine (js ''ACTS OK Fading 1'') st) = updates st"
  by (simp_all add: handleLine_def actsLine_def startsWith_def js_def lookup_def
      actsStatusNodes_def objectPrototypeKeys_def update_def Let_def)

section \<open>C6: chunks\<close>

text \<open>
  Claim C6 fails when a chunk boundary falls inside a character of more than one byte:
  each chunk is decoded on its own. The bytes C3 A9 0D 0A give the line U+00E9 as one
  chunk, and the line U+FFFD U+FFFD when the first byte comes as a chunk of its own.
\<close>

theorem split_character_changes_lines:
  "map_option received (run [Connect 0, Data 0 [0xC3, 0xA9, 0x0D, 0x0A]] startup)
     = Some [[0xE9]]
   \<and> map_option received (run [Connect 0, Data 0 [0xC3], Data 0 [0xA9, 0x0D, 0x0A]] startup)
     = Some [[0xFFFD, 0xFFFD]]"
proof -
  define S where "S = onConnect 0 (startup\<lparr>phase := (phase startup)(0 := Open)\<rparr>)"
  have S: "nsocks S = 1" "phase S 0 = Open" "dataBuffer (socks S 0) = []" "received S = []"
    unfolding S_def by (simp_all add: startup_simps onConnect_def update_def Let_def)
  have i1: "indexOf [0xE9, 0x0D, 0x0A] CRLF = Some 1"
    and i2: "indexOf [0xFFFD :: codeunit] CRLF = None"
    and i3: "indexOf [0xFFFD, 0xFFFD, 0x0D, 0x0A] CRLF = Some 2"
    and i0: "indexOf [] CRLF = None"
    by (simp_all add: startsWith_def CRLF_def)
  have t1: "trim [0xE9] = [0xE9]" and t2: "trim [0xFFFD, 0xFFFD] = [0xFFFD, 0xFFFD]"
    by (simp_all add: trim_def isWhiteSpace_def)
  have whole: "received (onData 0 [0xC3, 0xA9, 0x0D, 0x0A] S) = [[0xE9]]"
    by (simp add: onData_buffer S toString_whole processBuffer_line [OF i1]
        processBuffer_no_line [OF i0] t1 received_handleLine)
  define S1 where "S1 = onData 0 [0xC3] S"
  have S1: "nsocks S1 = 1" "phase S1 0 = Open" "dataBuffer (socks S1 0) = [0xFFFD]"
    "received S1 = []"
    unfolding S1_def
    by (simp_all add: onData_frame onData_buffer S toString_parts processBuffer_no_line [OF i2])
  have parts: "received (onData 0 [0xA9, 0x0D, 0x0A] S1) = [[0xFFFD, 0xFFFD]]"
    by (simp add: onData_buffer S1 toString_parts processBuffer_line [OF i3]
        processBuffer_no_line [OF i0] t2 received_handleLine)
  have "run [Connect 0, Data 0 [0xC3, 0xA9, 0x0D, 0x0A]] startup
      = Some (onData 0 [0xC3, 0xA9, 0x0D, 0x0A] S)"
    using S by (simp add: startup_simps S_def [symmetric])
  moreover have "run [Connect 0, Data 0 [0xC3], Data 0 [0xA9, 0x0D, 0x0A]] startup
      = Some (onData 0 [0xA9, 0x0D, 0x0A] S1)"
    using S S1 by (simp add: startup_simps S_def [symmetric] S1_def [symmetric])
  ultimately show ?thesis
    using whole parts by simp
qed

text \<open>
  For ASCII bytes the claim holds: any split of the stream into one or more chunks,
  a split inside CRLF included, leaves the same state as the whole stream in one chunk,
  the logged lines and the buffered rest among it. The buffer is cut into its lines,
  each logged trimmed, and a rest that holds no CRLF.
\<close>

lemma onData_ascii_stream:
  assumes "ds \<noteq> []" and "\<forall>b \<in> set (concat ds). b \<le> 0x7F"
  shows "foldl (\<lambda>s d. onData c d s) st ds = onData c (concat ds) st"
  using assms
proof (induction ds rule: rev_induct)
  case Nil
  then show ?case by simp
next
  case (snoc d ds)
  show ?case
  proof (cases "ds = []")
    case True
    then show ?thesis by simp
  next
    case False
    with snoc have "foldl (\<lambda>s d. onData c d s) st ds = onData c (concat ds) st"
      by simp
    moreover have "onData c d (onData c (concat ds) st) = onData c (concat ds @ d) st"
      using snoc.prems(2) by (intro onData_ascii_chunks) simp
    ultimately show ?thesis by simp
  qed
qed

lemma indexOf_at: "indexOf s p = Some i \<Longrightarrow> take (length p) (drop i s) = p"
proof (induction s arbitrary: i)
  case Nil
  then show ?case by (simp split: if_splits)
next
  case (Cons c cs)
  show ?case
  proof (cases "startsWith (c # cs) p")
    case True
    with Cons.prems have "i = 0" by simp
    with True show ?thesis by (simp add: startsWith_def)
  next
    case False
    with Cons.prems obtain j where j: "indexOf cs p = Some j" "i = Suc j" by auto
    with Cons.IH show ?thesis by simp
  qed
qed

lemma processBuffer_lines:
  "\<exists>ls. buf = concat (map (\<lambda>l. l @ CRLF) ls) @ snd (processBuffer st buf)
      \<and> received (fst (processBuffer st buf)) = received st @ map trim ls"
proof (induction st buf rule: processBuffer.induct)
  case (1 st buf)
  show ?case
  proof (cases "indexOf buf CRLF")
    case None
    then have "buf = concat (map (\<lambda>l. l @ CRLF) []) @ snd (processBuffer st buf)
      \<and> received (fst (processBuffer st buf)) = received st @ map trim []"
      by (simp add: processBuffer_no_line)
    then show ?thesis by blast
  next
    case (Some i)
    let ?st = "handleLine (trim (take i buf)) st" and ?rest = "drop (i + 2) buf"
    from "1.IH" [OF Some] obtain ls where
      ls: "?rest = concat (map (\<lambda>l. l @ CRLF) ls) @ snd (processBuffer ?st ?rest)"
        "received (fst (processBuffer ?st ?rest)) = received ?st @ map trim ls"
      by blast
    have "take 2 (drop i buf) = CRLF"
      using indexOf_at [OF Some] by (simp add: CRLF_def numeral_2_eq_2)
    then have "drop i buf = CRLF @ ?rest"
      by (metis add.commute append_take_drop_id drop_drop)
    then have "buf = take i buf @ CRLF @ ?rest"
      by (metis append_take_drop_id)
    with ls have "buf = concat (map (\<lambda>l. l @ CRLF) (take i buf # ls))
          @ snd (processBuffer st buf)
        \<and> received (fst (processBuffer st buf)) = received st @ map trim (take i buf # ls)"
      by (simp add: processBuffer_line [OF Some] received_handleLine)
    then show ?thesis by blast
  qed
qed

section \<open>C7: transport failures\<close>



section \<open>C8: the guard flag\<close>

text \<open>
  Claim C8. In every state the bridge reaches, at most one reconnect timer is pending,
  and one is pending exactly when the guard flag is set. When the guard flag is set,
  the \<^verbatim>\<open>'error'\<close> and \<^verbatim>\<open>'close'\<close> handlers only clear the stored connection:
  they schedule nothing. And an event after which the guard flag is no longer set is
  the expiry of the timer or a connect callback. (The bound on the pending timers rests
  on the order in which the runtime delivers events, as \<open>deliver\<close> has it: the
  \<^verbatim>\<open>'close'\<close> of a failed socket comes before a timer expires.)
\<close>

theorem single_reconnect_timer:
  "(run es startup = Some st \<longrightarrow>
      length (timers st) \<le> 1 \<and> (reconnectScheduled st \<longleftrightarrow> timers st \<noteq> []))
   \<and> (reconnectScheduled st0 \<longrightarrow>
        onError c code st0 = st0\<lparr>vmixConnection := None\<rparr> \<and>
        onClose c st0 = st0\<lparr>vmixConnection := None\<rparr>)
   \<and> (deliver e st1 = Some st2 \<and> reconnectScheduled st1 \<and> \<not> reconnectScheduled st2 \<longrightarrow>
        (\<exists>k. e = Timeout k) \<or> (\<exists>k. e = Connect k))"
proof (intro conjI impI)
  assume r: "run es startup = Some st"
  have "timerInv st" using timerInv_run [OF timerInv_startup r] .
  then show "length (timers st) \<le> 1" "reconnectScheduled st \<longleftrightarrow> timers st \<noteq> []"
    by (simp_all add: timerInv_def)
next
  assume "reconnectScheduled st0"
  then show "onError c code st0 = st0\<lparr>vmixConnection := None\<rparr>"
    "onClose c st0 = st0\<lparr>vmixConnection := None\<rparr>"
    by (simp_all add: onError_def onClose_def Let_def scheduleReconnect_def)
next
  assume a: "deliver e st1 = Some st2 \<and> reconnectScheduled st1 \<and> \<not> reconnectScheduled st2"
  show "(\<exists>k. e = Timeout k) \<or> (\<exists>k. e = Connect k)"
  proof (rule ccontr)
    assume n: "\<not> ((\<exists>k. e = Timeout k) \<or> (\<exists>k. e = Connect k))"
    then have "\<not> isConnect e" "\<forall>k. e \<noteq> Timeout k"
      by (auto simp: isConnect_def split: event.splits)
    with a guard_kept show False by blast
  qed
qed

theorem single_reconnect_timer_witness:
  "run [Error 0 (js ''ECONNREFUSED''), Close 0] startup \<noteq> None
   \<and> length (timers (the (run [Error 0 (js ''ECONNREFUSED''), Close 0] startup))) = 1
   \<and> reconnectScheduled (the (run [Error 0 (js ''ECONNREFUSED'')] startup))
   \<and> timers (onClose 0 (the (run [Error 0 (js ''ECONNREFUSED'')] startup)))
       = timers (the (run [Error 0 (js ''ECONNREFUSED'')] startup))"
proof -
  obtain s2 where f: "run [Error 0 (js ''ECONNREFUSED''), Close 0] startup = Some s2"
    using failure_enabled [of 0 startup "Failed (js ''ECONNREFUSED'')"]
    by (auto simp: startup_simps)
  define s1 where "s1 = the (run [Error 0 (js ''ECONNREFUSED'')] startup)"
  have s1: "reconnectScheduled s1"
    unfolding s1_def
    by (simp add: startup_simps onError_def scheduleReconnect_def update_def Let_def)
  have "timerInv s2" using timerInv_run [OF timerInv_startup f] .
  moreover have "reconnectScheduled s2"
    using failure_result(2) [OF timerInv_startup, of 0 "Failed (js ''ECONNREFUSED'')" s2] f
    by simp
  ultimately have ne: "timers s2 \<noteq> []" by (simp add: timerInv_def)
  note t = single_reconnect_timer [where es = "[Error 0 (js ''ECONNREFUSED''), Close 0]"
      and st = s2 and ?st0.0 = s1 and c = 0]
  from t f ne have "length (timers s2) = 1"
    by (cases "timers s2") auto
  moreover from t s1 have "timers (onClose 0 s1) = timers s1"
    by simp
  ultimately show ?thesis
    using s1 unfolding f s1_def [symmetric] by simp
qed

section \<open>C9: set-value requests\<close>

text \<open>
  Claim C9 as written fails: not every requested value is accepted. The parameters are
  Booleans, and with a value of another type \<^verbatim>\<open>s.update\<close> throws before the
  handler reaches \<^verbatim>\<open>return true\<close>, so its promise is rejected.
\<close>

theorem set_value_not_accepted:
  "onSetValue (ProgramTally 3) (StrV (js ''on'')) startup = Inl TypeError"
  by (simp add: onSetValue_def s_update_def)

text \<open>
  Claim C9, amended. For every parameter, every requested Boolean and every state, the
  set-value handler answers \<^verbatim>\<open>true\<close> and stores exactly the requested value at that
  parameter, by one call of \<^verbatim>\<open>s.update\<close>; no other parameter changes, and nothing
  of the state is consulted, the values reported by the device included. A request
  with a value that is no Boolean is rejected.
\<close>

theorem set_value_passthrough:
  "(\<exists>st'. onSetValue n (BoolV b) st = Inr (True, st')
       \<and> tree st' n = Some (BoolV b)
       \<and> updates st' = updates st @ [(Node n, BoolV b)]
       \<and> (\<forall>m. m \<noteq> n \<longrightarrow> tree st' m = tree st m)
       \<and> ctl (st'\<lparr>tree := tree st\<rparr>) = ctl st \<and> received st' = received st)
   \<and> ((\<forall>b'. v \<noteq> BoolV b') \<longrightarrow> onSetValue n v st = Inl TypeError)"
  by (cases v) (simp_all add: onSetValue_def s_update_def update_def ctl_def)

theorem set_value_passthrough_witness:
  "onSetValue (ProgramTally 3) (BoolV True) startup
     = Inr (True, update (Node (ProgramTally 3)) (BoolV True) startup)
   \<and> tree (update (Node (ProgramTally 3)) (BoolV True) startup) (ProgramTally 3)
       = Some (BoolV True)
   \<and> tree (update (Node (ProgramTally 3)) (BoolV True) startup) VmixConnected
       = Some (BoolV False)
   \<and> onSetValue VmixConnected (NumV 1) startup = Inl TypeError"
proof -
  from set_value_passthrough [of "ProgramTally 3" True startup "NumV 1"]
  obtain st' where st': "onSetValue (ProgramTally 3) (BoolV True) startup = Inr (True, st')"
    "tree st' (ProgramTally 3) = Some (BoolV True)"
    "\<forall>m. m \<noteq> ProgramTally 3 \<longrightarrow> tree st' m = tree startup m"
    by blast
  have e: "onSetValue (ProgramTally 3) (BoolV True) startup
      = Inr (True, update (Node (ProgramTally 3)) (BoolV True) startup)"
    by (simp add: onSetValue_def s_update_def)
  with st'(1) have "st' = update (Node (ProgramTally 3)) (BoolV True) startup" by simp
  with st' have "tree (update (Node (ProgramTally 3)) (BoolV True) startup) (ProgramTally 3)
       = Some (BoolV True)"
    "tree (update (Node (ProgramTally 3)) (BoolV True) startup) VmixConnected
       = tree startup VmixConnected"
    by simp_all
  moreover have "onSetValue VmixConnected (NumV 1) startup = Inl TypeError"
    using set_value_passthrough [of VmixConnected True startup "NumV 1"] by simp
  ultimately show ?thesis
    using e by (simp add: startup_simps initialTree_def)
qed

section \<open>C10: the id of an invocation\<close>

text \<open>
  Claim C10. For every identifier, invocation id and state, the result of the
  invocation handler carries that invocation id, whichever of its return statements
  produced it: the result is either the success result or the failure result
  "connection not available", each with the id.
\<close>

theorem invocation_result_carries_id:
  "id_res (fst (onInvocation identifier iid st)) = iid
   \<and> (fst (onInvocation identifier iid st) = \<lparr>id_res = iid, success = True, error = None\<rparr>
      \<or> fst (onInvocation identifier iid st) =
           \<lparr>id_res = iid, success = False, error = Some (js ''vMix connection not available.'')\<rparr>)"
  by (simp add: onInvocation_def Let_def split: option.split)

theorem invocation_result_carries_id_witness:
  "id_res (fst (onInvocation (js ''Stinger 2'') 41 startup)) = 41
   \<and> id_res (fst (onInvocation (js ''Stinger 2'') 42 (the (run [Connect 0] startup)))) = 42
   \<and> id_res (fst (onInvocation (js ''No such function'') 43 startup)) = 43"
  using invocation_result_carries_id [of "js ''Stinger 2''" 41 startup]
    invocation_result_carries_id [of "js ''Stinger 2''" 42 "the (run [Connect 0] startup)"]
    invocation_result_carries_id [of "js ''No such function''" 43 startup]
  by simp

end
